theory Spec2Isabelle
  imports Main "HOL-Library.Word" "HOL-Library.Monad_Syntax"
begin

unbundle bit_operations_syntax

section \<open>Helix-2: the keystream generator and its byte and buffer transforms\<close>

text \<open>
  The development embeds \<^verbatim>\<open>src/helix2.c\<close> (the cipher with the block cache) and the
  second copy of \<^verbatim>\<open>helix2.c\<close> in the repository, which has no cache and another round
  structure.  C's \<^verbatim>\<open>uint8_t\<close>, \<^verbatim>\<open>uint32_t\<close> and \<^verbatim>\<open>uint64_t\<close> are words of that
  width, so \<open>+\<close> wraps.  The fixed-size arrays of the context are lists; every array read
  and write of the source goes through \<open>load\<close> and \<open>store\<close>, which fail (\<open>None\<close>) out of
  range, and a shift by an amount C leaves undefined fails as well.  A function that
  mutates the context returns the new context.
\<close>

type_synonym u8 = "8 word"
type_synonym u32 = "32 word"
type_synonym u64 = "64 word"

subsection \<open>Arrays\<close>

definition load :: "'a list \<Rightarrow> nat \<Rightarrow> 'a option" where
  "load xs i = (if i < length xs then Some (xs ! i) else None)"

definition store :: "'a list \<Rightarrow> nat \<Rightarrow> 'a \<Rightarrow> 'a list option" where
  "store xs i v = (if i < length xs then Some (xs[i := v]) else None)"

text \<open>\<^verbatim>\<open>memcpy(dst, src, n)\<close> on arrays of equal element type, \<open>n\<close> counted in elements.\<close>

definition memcpy :: "'a list \<Rightarrow> 'a list \<Rightarrow> nat \<Rightarrow> 'a list option" where
  "memcpy dst src n =
     (if n \<le> length src \<and> n \<le> length dst then Some (take n src @ drop n dst) else None)"

subsection \<open>The context\<close>

record helix2_internal_keystream =
  stream :: "u32 list"
  state :: "u32 list"
  current_block_index :: u64
  last_block_index :: u64

record helix2_context =
  nonce :: "u8 list"
  key :: "u8 list"
  keystream :: helix2_internal_keystream

text \<open>\<^verbatim>\<open>HELIX2_KEYSTREAM_SIZE\<close>\<close>

definition HELIX2_KEYSTREAM_SIZE :: nat where
  "HELIX2_KEYSTREAM_SIZE = 64"

subsection \<open>Internal helpers\<close>

text \<open>
  \<^verbatim>\<open>(x << n) | (x >> (32 - n))\<close>: both shifts are defined in C exactly when
  \<open>0 < n < 32\<close>.
\<close>

definition rotl32 :: "u32 \<Rightarrow> int \<Rightarrow> u32 option" where
  "rotl32 x n =
     (if 0 < n \<and> n < 32 then Some (push_bit (nat n) x OR drop_bit (nat (32 - n)) x)
      else None)"

text \<open>\<^verbatim>\<open>_pack4(&a[off])\<close>\<close>

definition pack4 :: "u8 list \<Rightarrow> nat \<Rightarrow> u32 option" where
  "pack4 a off = do {
     a0 \<leftarrow> load a (off + 0);
     a1 \<leftarrow> load a (off + 1);
     a2 \<leftarrow> load a (off + 2);
     a3 \<leftarrow> load a (off + 3);
     Some ((((0 OR push_bit (0 * 8) (ucast a0))
               OR push_bit (1 * 8) (ucast a1))
               OR push_bit (2 * 8) (ucast a2))
               OR push_bit (3 * 8) (ucast a3))
   }"

text \<open>The eight statements of \<^verbatim>\<open>_helix2_shuffle\<close>, one inner block each.\<close>

definition helix2_shuffle :: "u32 list \<Rightarrow> nat \<Rightarrow> nat \<Rightarrow> nat \<Rightarrow> nat \<Rightarrow> u32 list option" where
  "helix2_shuffle s0 a b c d = do {
     s1 \<leftarrow> do { va \<leftarrow> load s0 a; vb \<leftarrow> load s0 b; vd \<leftarrow> load s0 d;
                r \<leftarrow> rotl32 ((va XOR vb) + vd) 9;
                vc \<leftarrow> load s0 c; store s0 c (vc + r) };
     s2 \<leftarrow> do { vb \<leftarrow> load s1 b; vc \<leftarrow> load s1 c; va \<leftarrow> load s1 a;
                r \<leftarrow> rotl32 ((vb + vc) XOR va) 13;
                vd \<leftarrow> load s1 d; store s1 d (vd XOR r) };
     s3 \<leftarrow> do { vc \<leftarrow> load s2 c; vd \<leftarrow> load s2 d; vb \<leftarrow> load s2 b;
                r \<leftarrow> rotl32 ((vc XOR vd) + vb) 18;
                va \<leftarrow> load s2 a; store s2 a (va + r) };
     s4 \<leftarrow> do { vd \<leftarrow> load s3 d; va \<leftarrow> load s3 a; vc \<leftarrow> load s3 c;
                r \<leftarrow> rotl32 ((vd + va) XOR vc) 22;
                vb \<leftarrow> load s3 b; store s3 b (vb XOR r) };
     s5 \<leftarrow> do { va \<leftarrow> load s4 a; vb \<leftarrow> load s4 b;
                r \<leftarrow> rotl32 (va + vb) 7;
                vc \<leftarrow> load s4 c; store s4 c (vc XOR r) };
     s6 \<leftarrow> do { vb \<leftarrow> load s5 b; vc \<leftarrow> load s5 c;
                r \<leftarrow> rotl32 (vb XOR vc) 21;
                vd \<leftarrow> load s5 d; store s5 d (vd + r) };
     s7 \<leftarrow> do { vc \<leftarrow> load s6 c; vd \<leftarrow> load s6 d;
                r \<leftarrow> rotl32 (vc + vd) 11;
                va \<leftarrow> load s6 a; store s6 a (va XOR r) };
     do { vd \<leftarrow> load s7 d; va \<leftarrow> load s7 a;
          r \<leftarrow> rotl32 (vd XOR va) 16;
          vb \<leftarrow> load s7 b; store s7 b (vb + r) }
   }"

text \<open>
  \<^verbatim>\<open>stream[k] += state[k]\<close> for the listed \<open>k\<close>; the source writes the sixteen
  statements out, \<open>k = 0, \<dots>, 15\<close>.
\<close>

fun add_state :: "u32 list \<Rightarrow> u32 list \<Rightarrow> nat list \<Rightarrow> u32 list option" where
  "add_state strm st [] = Some strm"
| "add_state strm st (k # ks) = do {
     x \<leftarrow> load strm k;
     y \<leftarrow> load st k;
     strm' \<leftarrow> store strm k (x + y);
     add_state strm' st ks
   }"

text \<open>
  \<^verbatim>\<open>_helix2_initialize_keystream\<close> of \<^verbatim>\<open>src/helix2.c\<close>.  The \<^verbatim>\<open>memcpy\<close> of 64
  bytes copies the sixteen words of \<open>state\<close> over \<open>stream\<close>.
\<close>

definition helix2_initialize_keystream :: "helix2_context \<Rightarrow> helix2_context option" where
  "helix2_initialize_keystream ctx = do {
     let ks = keystream ctx;
     st \<leftarrow> store (state ks) 10 (ucast (current_block_index ks AND 0xFFFFFFFF));
     n0 \<leftarrow> pack4 (nonce ctx) 0;
     st \<leftarrow> store st 11 (n0 XOR ucast (drop_bit 32 (current_block_index ks) AND 0xFFFFFFFF));
     s \<leftarrow> memcpy (stream ks) st (HELIX2_KEYSTREAM_SIZE div 4);
     s \<leftarrow> helix2_shuffle s 0 1 2 3;
     s \<leftarrow> helix2_shuffle s 4 5 6 7;
     s \<leftarrow> helix2_shuffle s 8 9 10 11;
     s \<leftarrow> helix2_shuffle s 12 13 14 15;
     s \<leftarrow> helix2_shuffle s 0 4 8 12;
     s \<leftarrow> helix2_shuffle s 1 5 9 13;
     s \<leftarrow> helix2_shuffle s 2 6 10 14;
     s \<leftarrow> helix2_shuffle s 3 7 11 15;
     s \<leftarrow> helix2_shuffle s 0 5 10 15;
     s \<leftarrow> helix2_shuffle s 1 6 11 12;
     s \<leftarrow> helix2_shuffle s 2 7 8 13;
     s \<leftarrow> helix2_shuffle s 3 4 9 14;
     s \<leftarrow> add_state s st [0..<16];
     s \<leftarrow> helix2_shuffle s 0 1 2 3;
     s \<leftarrow> helix2_shuffle s 4 5 6 7;
     s \<leftarrow> helix2_shuffle s 8 9 10 11;
     s \<leftarrow> helix2_shuffle s 12 13 14 15;
     s \<leftarrow> helix2_shuffle s 0 4 8 12;
     s \<leftarrow> helix2_shuffle s 1 5 9 13;
     s \<leftarrow> helix2_shuffle s 2 6 10 14;
     s \<leftarrow> helix2_shuffle s 3 7 11 15;
     s \<leftarrow> helix2_shuffle s 0 5 10 15;
     s \<leftarrow> helix2_shuffle s 1 6 11 12;
     s \<leftarrow> helix2_shuffle s 2 7 8 13;
     s \<leftarrow> helix2_shuffle s 3 4 9 14;
     s \<leftarrow> add_state s st [0..<16];
     Some (ctx\<lparr>keystream := ks\<lparr>stream := s, state := st,
                                 last_block_index := current_block_index ks\<rparr>\<rparr>)
   }"

subsection \<open>The block cache\<close>

definition helix2_buffer_set_next_block :: "helix2_context \<Rightarrow> u64 \<Rightarrow> helix2_context option" where
  "helix2_buffer_set_next_block ctx block_index =
     helix2_initialize_keystream
       (ctx\<lparr>keystream := (keystream ctx)\<lparr>current_block_index := block_index\<rparr>\<rparr>)"

definition helix2_buffer_next_block :: "helix2_context \<Rightarrow> helix2_context option" where
  "helix2_buffer_next_block ctx =
     helix2_buffer_set_next_block ctx (current_block_index (keystream ctx) + 1)"

subsection \<open>Construction\<close>

text \<open>The string literal \<^verbatim>\<open>"so!M4g1c"\<close> with its terminating zero.\<close>

definition magic_constant :: "u8 list" where
  "magic_constant = [0x73, 0x6F, 0x21, 0x4D, 0x34, 0x67, 0x31, 0x63, 0x00]"

text \<open>\<^verbatim>\<open>for (i = 0; i < 8; i++) state[2 + i] = _pack4(&key[i * 4])\<close>, over \<open>[0..<8]\<close>.\<close>

fun pack_key :: "u8 list \<Rightarrow> nat list \<Rightarrow> u32 list \<Rightarrow> u32 list option" where
  "pack_key k [] st = Some st"
| "pack_key k (i # is) st = do {
     w \<leftarrow> pack4 k (i * 4);
     st' \<leftarrow> store st (2 + i) w;
     pack_key k is st'
   }"

text \<open>
  \<^verbatim>\<open>helix2_initialize_context\<close>: the context is zeroed, so the result depends on the
  caller's key and nonce arrays only; it reads 32 and 20 bytes of them.
\<close>

definition helix2_initialize_context :: "u8 list \<Rightarrow> u8 list \<Rightarrow> helix2_context option" where
  "helix2_initialize_context key_in nonce_in = do {
     let ctx = \<lparr>nonce = replicate 20 0, key = replicate 32 0,
                keystream = \<lparr>stream = replicate 16 0, state = replicate 16 0,
                             current_block_index = 0, last_block_index = 0\<rparr>\<rparr>;
     k \<leftarrow> memcpy (key ctx) key_in 32;
     n \<leftarrow> memcpy (nonce ctx) nonce_in 20;
     let ctx = ctx\<lparr>key := k, nonce := n\<rparr>;
     w \<leftarrow> pack4 magic_constant 0;
     st \<leftarrow> store (state (keystream ctx)) 0 w;
     w \<leftarrow> pack4 magic_constant 4;
     st \<leftarrow> store st 1 w;
     st \<leftarrow> pack_key (key ctx) [0..<8] st;
     st \<leftarrow> store st 10 0;
     w \<leftarrow> pack4 (nonce ctx) 0;
     st \<leftarrow> store st 11 w;
     w \<leftarrow> pack4 (nonce ctx) 4;
     st \<leftarrow> store st 12 w;
     w \<leftarrow> pack4 (nonce ctx) 8;
     st \<leftarrow> store st 13 w;
     w \<leftarrow> pack4 (nonce ctx) 12;
     st \<leftarrow> store st 14 w;
     w \<leftarrow> pack4 (nonce ctx) 16;
     st \<leftarrow> store st 15 w;
     let ctx = ctx\<lparr>keystream := (keystream ctx)\<lparr>state := st, last_block_index := 0\<rparr>\<rparr>;
     helix2_buffer_set_next_block ctx 0
   }"

subsection \<open>The byte and buffer transforms\<close>

text \<open>
  \<^verbatim>\<open>(uint8_t *)context->keystream.stream\<close>: the sixteen words seen as 64 bytes.  The
  cast gives the low-order byte of each word first on a little-endian host, which is what
  the repository's test vectors are stated for.
\<close>

definition word_bytes :: "u32 \<Rightarrow> u8 list" where
  "word_bytes w = [ucast w, ucast (drop_bit 8 w), ucast (drop_bit 16 w), ucast (drop_bit 24 w)]"

definition keystream_bytes :: "u32 list \<Rightarrow> u8 list" where
  "keystream_bytes ws = concat (map word_bytes ws)"

definition helix2_byte :: "helix2_context \<Rightarrow> u64 \<Rightarrow> u8 \<Rightarrow> (helix2_context \<times> u8) option" where
  "helix2_byte ctx offset byte = do {
     let ctx = ctx\<lparr>keystream := (keystream ctx)
                  \<lparr>current_block_index := offset div of_nat HELIX2_KEYSTREAM_SIZE\<rparr>\<rparr>;
     let block_offset = (ucast (offset mod of_nat HELIX2_KEYSTREAM_SIZE) :: u8);
     ctx \<leftarrow> (if last_block_index (keystream ctx) \<noteq> current_block_index (keystream ctx)
              then helix2_buffer_set_next_block ctx (current_block_index (keystream ctx))
              else Some ctx);
     k \<leftarrow> load (keystream_bytes (stream (keystream ctx))) (unat block_offset);
     Some (ctx, byte XOR k)
   }"

text \<open>
  The loop of \<^verbatim>\<open>helix2_buffer\<close>, by recursion on the bytes \<open>buffer[i]\<close>, \<open>i < size\<close>,
  that it visits in order.  \<open>keystream_bytes\<close> is a pointer into the context, so each read
  sees the current \<open>stream\<close>.
\<close>

fun helix2_buffer_loop ::
  "helix2_context \<Rightarrow> u64 \<Rightarrow> u8 \<Rightarrow> u8 list \<Rightarrow> (helix2_context \<times> u8 list) option" where
  "helix2_buffer_loop ctx current_block block_offset [] = Some (ctx, [])"
| "helix2_buffer_loop ctx current_block block_offset (x # xs) = do {
     (ctx, current_block, block_offset) \<leftarrow>
        (if block_offset \<ge> of_nat HELIX2_KEYSTREAM_SIZE
         then do { ctx' \<leftarrow> helix2_buffer_set_next_block ctx (current_block + 1);
                   Some (ctx', current_block + 1, 0) }
         else Some (ctx, current_block, block_offset));
     k \<leftarrow> load (keystream_bytes (stream (keystream ctx))) (unat block_offset);
     (ctx, ys) \<leftarrow> helix2_buffer_loop ctx current_block (block_offset + 1) xs;
     Some (ctx, (x XOR k) # ys)
   }"

text \<open>
  \<^verbatim>\<open>helix2_buffer\<close>: the first \<open>sz\<close> (the source's \<^verbatim>\<open>size\<close>) bytes of the buffer are
  transformed, the rest is left as it is; a size beyond the buffer is an out-of-range
  access.
\<close>

definition helix2_buffer ::
  "helix2_context \<Rightarrow> u8 list \<Rightarrow> nat \<Rightarrow> u64 \<Rightarrow> (helix2_context \<times> u8 list) option" where
  "helix2_buffer ctx buffer sz start_offset = do {
     let current_block = start_offset div of_nat HELIX2_KEYSTREAM_SIZE;
     let block_offset = (ucast (start_offset mod of_nat HELIX2_KEYSTREAM_SIZE) :: u8);
     ctx \<leftarrow> (if last_block_index (keystream ctx) \<noteq> current_block
              then helix2_buffer_set_next_block ctx current_block
              else Some ctx);
     (if sz \<le> length buffer
      then do { (ctx, ys) \<leftarrow> helix2_buffer_loop ctx current_block block_offset (take sz buffer);
                Some (ctx, ys @ drop sz buffer) }
      else None)
   }"

subsection \<open>The copy of the cipher without a block cache\<close>

text \<open>
  The repository holds a second \<^verbatim>\<open>helix2.c\<close> with its own header: a flat context
  without block indices, no \<^verbatim>\<open>helix2_byte\<close>, and a \<^verbatim>\<open>helix2_buffer\<close> that
  regenerates the block on every call.  Its \<^verbatim>\<open>_rotl32\<close>, \<^verbatim>\<open>_pack4\<close> and
  \<^verbatim>\<open>_helix2_shuffle\<close> are the same text as above; its functions carry the suffix
  \<open>_u\<close> here, its fields the prefix \<open>u_\<close>.
\<close>

record helix2_context_u =
  u_nonce :: "u8 list"
  u_key :: "u8 list"
  u_stream :: "u32 list"
  u_state :: "u32 list"

definition helix2_initialize_keystream_u :: "helix2_context_u \<Rightarrow> u64 \<Rightarrow> helix2_context_u option" where
  "helix2_initialize_keystream_u ctx block_index = do {
     st \<leftarrow> store (u_state ctx) 10 (ucast (block_index AND 0xFFFFFFFF));
     n0 \<leftarrow> pack4 (u_nonce ctx) 0;
     st \<leftarrow> store st 11 (n0 XOR ucast (drop_bit 32 block_index AND 0xFFFFFFFF));
     s \<leftarrow> memcpy (u_stream ctx) st (HELIX2_KEYSTREAM_SIZE div 4);
     s \<leftarrow> helix2_shuffle s 0 1 2 3;
     s \<leftarrow> helix2_shuffle s 4 5 6 7;
     s \<leftarrow> helix2_shuffle s 8 9 10 11;
     s \<leftarrow> helix2_shuffle s 12 13 14 15;
     s \<leftarrow> helix2_shuffle s 0 5 10 15;
     s \<leftarrow> helix2_shuffle s 1 6 11 12;
     s \<leftarrow> helix2_shuffle s 2 7 8 13;
     s \<leftarrow> helix2_shuffle s 3 4 9 14;
     s \<leftarrow> add_state s st [0..<16];
     s \<leftarrow> helix2_shuffle s 0 4 8 12;
     s \<leftarrow> helix2_shuffle s 1 5 9 13;
     s \<leftarrow> helix2_shuffle s 2 6 10 14;
     s \<leftarrow> helix2_shuffle s 3 7 11 15;
     s \<leftarrow> helix2_shuffle s 3 6 9 12;
     s \<leftarrow> helix2_shuffle s 2 5 8 15;
     s \<leftarrow> helix2_shuffle s 1 4 11 14;
     s \<leftarrow> helix2_shuffle s 0 7 10 13;
     s \<leftarrow> add_state s st [0..<16];
     Some (ctx\<lparr>u_stream := s, u_state := st\<rparr>)
   }"

definition helix2_initialize_context_u :: "u8 list \<Rightarrow> u8 list \<Rightarrow> helix2_context_u option" where
  "helix2_initialize_context_u key_in nonce_in = do {
     let ctx = \<lparr>u_nonce = replicate 20 0, u_key = replicate 32 0,
                u_stream = replicate 16 0, u_state = replicate 16 0\<rparr>;
     k \<leftarrow> memcpy (u_key ctx) key_in 32;
     n \<leftarrow> memcpy (u_nonce ctx) nonce_in 20;
     let ctx = ctx\<lparr>u_key := k, u_nonce := n\<rparr>;
     w \<leftarrow> pack4 magic_constant 0;
     st \<leftarrow> store (u_state ctx) 0 w;
     w \<leftarrow> pack4 magic_constant 4;
     st \<leftarrow> store st 1 w;
     w \<leftarrow> pack4 (u_key ctx) 0;
     st \<leftarrow> store st 2 w;
     w \<leftarrow> pack4 (u_key ctx) 4;
     st \<leftarrow> store st 3 w;
     w \<leftarrow> pack4 (u_key ctx) 8;
     st \<leftarrow> store st 4 w;
     w \<leftarrow> pack4 (u_key ctx) 12;
     st \<leftarrow> store st 5 w;
     w \<leftarrow> pack4 (u_key ctx) 16;
     st \<leftarrow> store st 6 w;
     w \<leftarrow> pack4 (u_key ctx) 20;
     st \<leftarrow> store st 7 w;
     w \<leftarrow> pack4 (u_key ctx) 24;
     st \<leftarrow> store st 8 w;
     w \<leftarrow> pack4 (u_key ctx) 28;
     st \<leftarrow> store st 9 w;
     st \<leftarrow> store st 10 0;
     w \<leftarrow> pack4 (u_nonce ctx) 0;
     st \<leftarrow> store st 11 w;
     w \<leftarrow> pack4 (u_nonce ctx) 4;
     st \<leftarrow> store st 12 w;
     w \<leftarrow> pack4 (u_nonce ctx) 8;
     st \<leftarrow> store st 13 w;
     w \<leftarrow> pack4 (u_nonce ctx) 12;
     st \<leftarrow> store st 14 w;
     w \<leftarrow> pack4 (u_nonce ctx) 16;
     st \<leftarrow> store st 15 w;
     Some (ctx\<lparr>u_state := st\<rparr>)
   }"

fun helix2_buffer_loop_u ::
  "helix2_context_u \<Rightarrow> u64 \<Rightarrow> u8 \<Rightarrow> u8 list \<Rightarrow> (helix2_context_u \<times> u8 list) option" where
  "helix2_buffer_loop_u ctx current_block block_offset [] = Some (ctx, [])"
| "helix2_buffer_loop_u ctx current_block block_offset (x # xs) = do {
     (ctx, current_block, block_offset) \<leftarrow>
        (if block_offset \<ge> of_nat HELIX2_KEYSTREAM_SIZE
         then do { ctx' \<leftarrow> helix2_initialize_keystream_u ctx (current_block + 1);
                   Some (ctx', current_block + 1, 0) }
         else Some (ctx, current_block, block_offset));
     k \<leftarrow> load (keystream_bytes (u_stream ctx)) (unat block_offset);
     (ctx, ys) \<leftarrow> helix2_buffer_loop_u ctx current_block (block_offset + 1) xs;
     Some (ctx, (x XOR k) # ys)
   }"

definition helix2_buffer_u ::
  "helix2_context_u \<Rightarrow> u8 list \<Rightarrow> nat \<Rightarrow> u64 \<Rightarrow> (helix2_context_u \<times> u8 list) option" where
  "helix2_buffer_u ctx buffer sz start_offset = do {
     let current_block = start_offset div of_nat HELIX2_KEYSTREAM_SIZE;
     let block_offset = (ucast (start_offset mod of_nat HELIX2_KEYSTREAM_SIZE) :: u8);
     ctx \<leftarrow> helix2_initialize_keystream_u ctx current_block;
     (if sz \<le> length buffer
      then do { (ctx, ys) \<leftarrow> helix2_buffer_loop_u ctx current_block block_offset (take sz buffer);
                Some (ctx, ys @ drop sz buffer) }
      else None)
   }"

subsection \<open>Sequences of calls on a context\<close>

text \<open>
  The public operations a caller can apply to a constructed context.  A buffer call passes
  a buffer and its whole length.
\<close>

datatype call =
    Byte u64 u8
  | Buffer "u8 list" u64
  | Set_next_block u64
  | Next_block

fun run_call :: "helix2_context \<Rightarrow> call \<Rightarrow> helix2_context option" where
  "run_call ctx (Byte offset byte) = map_option fst (helix2_byte ctx offset byte)"
| "run_call ctx (Buffer buffer start_offset) =
     map_option fst (helix2_buffer ctx buffer (length buffer) start_offset)"
| "run_call ctx (Set_next_block block_index) = helix2_buffer_set_next_block ctx block_index"
| "run_call ctx Next_block = helix2_buffer_next_block ctx"

fun run_calls :: "helix2_context \<Rightarrow> call list \<Rightarrow> helix2_context option" where
  "run_calls ctx [] = Some ctx"
| "run_calls ctx (c # cs) = do { ctx' \<leftarrow> run_call ctx c; run_calls ctx' cs }"

text \<open>
  Sequential \<^verbatim>\<open>helix2_byte\<close> calls on the bytes of a list, at the offsets \<open>offset\<close>,
  \<open>offset + 1\<close>, \<dots> (computed in \<^verbatim>\<open>uint64_t\<close>, as a caller's loop does).
\<close>

fun byte_calls ::
  "helix2_context \<Rightarrow> u64 \<Rightarrow> u8 list \<Rightarrow> (helix2_context \<times> u8 list) option" where
  "byte_calls ctx offset [] = Some (ctx, [])"
| "byte_calls ctx offset (x # xs) = do {
     (ctx, y) \<leftarrow> helix2_byte ctx offset x;
     (ctx, ys) \<leftarrow> byte_calls ctx (offset + 1) xs;
     Some (ctx, y # ys)
   }"

text \<open>The array sizes that the C types of the context fix.\<close>

definition wf_context :: "helix2_context \<Rightarrow> bool" where
  "wf_context ctx \<longleftrightarrow>
     length (nonce ctx) = 20 \<and> length (key ctx) = 32 \<and>
     length (stream (keystream ctx)) = 16 \<and> length (state (keystream ctx)) = 16"

definition wf_context_u :: "helix2_context_u \<Rightarrow> bool" where
  "wf_context_u ctx \<longleftrightarrow>
     length (u_nonce ctx) = 20 \<and> length (u_key ctx) = 32 \<and>
     length (u_stream ctx) = 16 \<and> length (u_state ctx) = 16"

subsection \<open>The block generation as the specification describes it\<close>

text \<open>
  The definitions with the prefix \<open>spec_\<close> follow the words of the specification, not the
  code: \<open>mix\<close> on four words, the row, column and diagonal groups, the word-wise addition
  and the serialisation, low-order byte first.
\<close>

definition spec_rotl :: "u32 \<Rightarrow> nat \<Rightarrow> u32" where
  "spec_rotl x n = word_rotl n x"

definition spec_mix :: "u32 \<times> u32 \<times> u32 \<times> u32 \<Rightarrow> u32 \<times> u32 \<times> u32 \<times> u32" where
  "spec_mix q = (case q of (a, b, c, d) \<Rightarrow>
     let c = c + spec_rotl ((a XOR b) + d) 9;
         d = d XOR spec_rotl ((b + c) XOR a) 13;
         a = a + spec_rotl ((c XOR d) + b) 18;
         b = b XOR spec_rotl ((d + a) XOR c) 22;
         c = c XOR spec_rotl (a + b) 7;
         d = d + spec_rotl (b XOR c) 21;
         a = a XOR spec_rotl (c + d) 11;
         b = b + spec_rotl (d XOR a) 16
     in (a, b, c, d))"

definition spec_mix_group :: "u32 list \<Rightarrow> nat \<times> nat \<times> nat \<times> nat \<Rightarrow> u32 list" where
  "spec_mix_group w g = (case g of (i, j, k, l) \<Rightarrow>
     (case spec_mix (w ! i, w ! j, w ! k, w ! l) of (a, b, c, d) \<Rightarrow>
        w[i := a, j := b, k := c, l := d]))"

definition spec_row_groups :: "(nat \<times> nat \<times> nat \<times> nat) list" where
  "spec_row_groups = [(0, 1, 2, 3), (4, 5, 6, 7), (8, 9, 10, 11), (12, 13, 14, 15)]"

definition spec_column_groups :: "(nat \<times> nat \<times> nat \<times> nat) list" where
  "spec_column_groups = [(0, 4, 8, 12), (1, 5, 9, 13), (2, 6, 10, 14), (3, 7, 11, 15)]"

definition spec_diagonal_groups :: "(nat \<times> nat \<times> nat \<times> nat) list" where
  "spec_diagonal_groups = [(0, 5, 10, 15), (1, 6, 11, 12), (2, 7, 8, 13), (3, 4, 9, 14)]"

definition spec_round :: "u32 list \<Rightarrow> u32 list" where
  "spec_round w = foldl spec_mix_group w
     (spec_row_groups @ spec_column_groups @ spec_diagonal_groups)"

text \<open>Four bytes packed into a word, low-order byte first.\<close>

definition spec_pack :: "u8 list \<Rightarrow> u32" where
  "spec_pack bs = foldr (\<lambda>b acc. ucast b + 256 * acc) bs 0"

text \<open>
  Word 10 is the low 32 bits of the block index, word 11 the packed first four nonce bytes
  XOR the high 32 bits.
\<close>

definition spec_per_block_state :: "u32 list \<Rightarrow> u8 list \<Rightarrow> u64 \<Rightarrow> u32 list" where
  "spec_per_block_state seed_state nonce_bytes block_index =
     seed_state[10 := ucast block_index,
                11 := spec_pack (take 4 nonce_bytes) XOR ucast (drop_bit 32 block_index)]"

definition spec_add :: "u32 list \<Rightarrow> u32 list \<Rightarrow> u32 list" where
  "spec_add w p = map2 (+) w p"

definition spec_generate_words :: "u32 list \<Rightarrow> u8 list \<Rightarrow> u64 \<Rightarrow> u32 list" where
  "spec_generate_words seed_state nonce_bytes block_index =
     (let p = spec_per_block_state seed_state nonce_bytes block_index;
          w = spec_round p;
          w = spec_add w p;
          w = spec_round w;
          w = spec_add w p
      in w)"

text \<open>Byte \<open>j\<close> of the block is byte \<open>j mod 4\<close>, counted from the low end, of word \<open>j div 4\<close>.\<close>

definition spec_serialize :: "u32 list \<Rightarrow> u8 list" where
  "spec_serialize w =
     map (\<lambda>j. ucast (w ! (j div 4) div 256 ^ (j mod 4) mod 256)) [0..<4 * length w]"

definition spec_generate_block :: "u32 list \<Rightarrow> u8 list \<Rightarrow> u64 \<Rightarrow> u8 list" where
  "spec_generate_block seed_state nonce_bytes block_index =
     spec_serialize (spec_generate_words seed_state nonce_bytes block_index)"

subsection \<open>Notions used in the statements and proofs\<close>

text \<open>
  The words of block \<open>i\<close> for the key material held in a context, and the context as it
  is after block \<open>i\<close> has been generated into it.
\<close>

definition block_words :: "helix2_context \<Rightarrow> u64 \<Rightarrow> u32 list" where
  "block_words ctx i = spec_generate_words (state (keystream ctx)) (nonce ctx) i"

definition at_block :: "helix2_context \<Rightarrow> u64 \<Rightarrow> helix2_context" where
  "at_block ctx i =
     ctx\<lparr>keystream :=
       \<lparr>stream = block_words ctx i,
        state = spec_per_block_state (state (keystream ctx)) (nonce ctx) i,
        current_block_index = i, last_block_index = i\<rparr>\<rparr>"

text \<open>
  A context is coherent when its arrays have their sizes, both block indices agree, and the
  cached stream and the per-block state are those of the last generated block.
\<close>

definition coherent :: "helix2_context \<Rightarrow> bool" where
  "coherent ctx \<longleftrightarrow>
     wf_context ctx \<and>
     current_block_index (keystream ctx) = last_block_index (keystream ctx) \<and>
     stream (keystream ctx) = block_words ctx (last_block_index (keystream ctx)) \<and>
     state (keystream ctx) =
       spec_per_block_state (state (keystream ctx)) (nonce ctx) (last_block_index (keystream ctx))"

text \<open>
  A byte list XORed with a keystream given block by block (\<open>blk i\<close> is the 64 bytes of
  block \<open>i\<close>): \<open>xor_blocks\<close> starts \<open>pos\<close> bytes after the start of block \<open>b\<close> and counts
  blocks from there, in \<^verbatim>\<open>uint64_t\<close>; \<open>xor_offsets\<close> takes block and position from each
  byte's own 64-bit offset.
\<close>

fun xor_blocks :: "(u64 \<Rightarrow> u8 list) \<Rightarrow> u64 \<Rightarrow> nat \<Rightarrow> u8 list \<Rightarrow> u8 list" where
  "xor_blocks blk b pos [] = []"
| "xor_blocks blk b pos (x # xs) =
     (x XOR blk (b + of_nat (pos div 64)) ! (pos mod 64)) # xor_blocks blk b (Suc pos) xs"

fun xor_offsets :: "(u64 \<Rightarrow> u8 list) \<Rightarrow> u64 \<Rightarrow> u8 list \<Rightarrow> u8 list" where
  "xor_offsets blk offset [] = []"
| "xor_offsets blk offset (x # xs) =
     (x XOR blk (offset div 64) ! unat (offset mod 64)) # xor_offsets blk (offset + 1) xs"

text \<open>
  The 64 keystream bytes of block \<open>i\<close> for a key and a nonce, as a fresh context of either
  copy of the cipher produces them (the empty list when construction fails).
\<close>

definition keystream_block :: "u8 list \<Rightarrow> u8 list \<Rightarrow> u64 \<Rightarrow> u8 list" where
  "keystream_block key_in nonce_in i =
     (case helix2_initialize_context key_in nonce_in \<bind> (\<lambda>c. helix2_buffer_set_next_block c i) of
        Some c \<Rightarrow> keystream_bytes (stream (keystream c))
      | None \<Rightarrow> [])"

definition keystream_block_u :: "u8 list \<Rightarrow> u8 list \<Rightarrow> u64 \<Rightarrow> u8 list" where
  "keystream_block_u key_in nonce_in i =
     (case helix2_initialize_context_u key_in nonce_in \<bind> (\<lambda>c. helix2_initialize_keystream_u c i) of
        Some c \<Rightarrow> keystream_bytes (u_stream c)
      | None \<Rightarrow> [])"

text \<open>The same two notions for the copy without a cache, with its own two rounds.\<close>

definition block_words_u :: "helix2_context_u \<Rightarrow> u64 \<Rightarrow> u32 list" where
  "block_words_u ctx i =
     (let p = spec_per_block_state (u_state ctx) (u_nonce ctx) i;
          w = foldl spec_mix_group p (spec_row_groups @ spec_diagonal_groups);
          w = spec_add w p;
          w = foldl spec_mix_group w
                (spec_column_groups @ [(3, 6, 9, 12), (2, 5, 8, 15), (1, 4, 11, 14), (0, 7, 10, 13)]);
          w = spec_add w p
      in w)"

definition at_block_u :: "helix2_context_u \<Rightarrow> u64 \<Rightarrow> helix2_context_u" where
  "at_block_u ctx i =
     ctx\<lparr>u_stream := block_words_u ctx i,
         u_state := spec_per_block_state (u_state ctx) (u_nonce ctx) i\<rparr>"

subsection \<open>Constructed contexts and the test vectors\<close>

text \<open>
  A context as a caller has it: constructed from a key and a nonce, then used by a sequence
  of calls.  The transforms below run on such a context and return the bytes only.
\<close>

definition constructed :: "u8 list \<Rightarrow> u8 list \<Rightarrow> call list \<Rightarrow> helix2_context option" where
  "constructed key_in nonce_in cs =
     helix2_initialize_context key_in nonce_in \<bind> (\<lambda>c. run_calls c cs)"

definition byte_on :: "u8 list \<Rightarrow> u8 list \<Rightarrow> call list \<Rightarrow> u64 \<Rightarrow> u8 \<Rightarrow> u8 option" where
  "byte_on key_in nonce_in cs offset byte =
     constructed key_in nonce_in cs \<bind> (\<lambda>c. map_option snd (helix2_byte c offset byte))"

definition buffer_on ::
  "u8 list \<Rightarrow> u8 list \<Rightarrow> call list \<Rightarrow> u8 list \<Rightarrow> nat \<Rightarrow> u64 \<Rightarrow> u8 list option" where
  "buffer_on key_in nonce_in cs buffer sz start_offset =
     constructed key_in nonce_in cs \<bind>
       (\<lambda>c. map_option snd (helix2_buffer c buffer sz start_offset))"

text \<open>
  The first \<open>sz\<close> bytes of the buffer through sequential \<^verbatim>\<open>helix2_byte\<close> calls, the
  rest of the buffer untouched.
\<close>

definition byte_calls_on ::
  "u8 list \<Rightarrow> u8 list \<Rightarrow> call list \<Rightarrow> u8 list \<Rightarrow> nat \<Rightarrow> u64 \<Rightarrow> u8 list option" where
  "byte_calls_on key_in nonce_in cs buffer sz start_offset =
     constructed key_in nonce_in cs \<bind>
       (\<lambda>c. map_option (\<lambda>r. snd r @ drop sz buffer) (byte_calls c start_offset (take sz buffer)))"

definition buffer_u :: "u8 list \<Rightarrow> u8 list \<Rightarrow> u8 list \<Rightarrow> nat \<Rightarrow> u64 \<Rightarrow> u8 list option" where
  "buffer_u key_in nonce_in buffer sz start_offset =
     helix2_initialize_context_u key_in nonce_in \<bind>
       (\<lambda>c. map_option snd (helix2_buffer_u c buffer sz start_offset))"

text \<open>Words 10 and 11 of the state of a context.\<close>

definition block_index_words :: "helix2_context \<Rightarrow> u32 \<times> u32" where
  "block_index_words c = (state (keystream c) ! 10, state (keystream c) ! 11)"

text \<open>
  The inputs of \<^verbatim>\<open>test_vectors\<close> in \<^verbatim>\<open>tests/helix2_test.c\<close>, and the context that
  construction yields for the all-zero key and nonce.
\<close>

definition vector_key :: "u8 list" where
  "vector_key = replicate 32 0"

definition vector_nonce :: "u8 list" where
  "vector_nonce = replicate 20 0"

definition vector_key2 :: "u8 list" where
  "vector_key2 = (replicate 32 0)[31 := 0x01]"

definition vector_context :: helix2_context where
  "vector_context =
     \<lparr>nonce = replicate 20 0, key = replicate 32 0,
      keystream =
        \<lparr>stream = [0xFDEC8414, 0xDAE29F55, 0x6CDA0E84, 0x5A50DEA7,
                   0xCBE8F75F, 0x628F1521, 0xBBA2C4B4, 0xF1AB76EA,
                   0xAD3C6CD3, 0x19791586, 0xF232789A, 0x35078605,
                   0xF049FB88, 0xA1725029, 0x5755371E, 0xA5C0CFB3],
         state = [0x4D216F73, 0x63316734, 0, 0, 0, 0, 0, 0, 0, 0, 0, 0, 0, 0, 0, 0],
         current_block_index = 0, last_block_index = 0\<rparr>\<rparr>"

text \<open>
  The context that \<^verbatim>\<open>helix2_initialize_context\<close> holds for the all-zero key and nonce
  when it calls \<^verbatim>\<open>helix2_buffer_set_next_block(context, 0)\<close> in its last line: key, nonce
  and state are set, the stream is still zero from the \<^verbatim>\<open>memset\<close>, and both block
  indices are 0.
\<close>

definition vector_seed_context :: helix2_context where
  "vector_seed_context =
     \<lparr>nonce = replicate 20 0, key = replicate 32 0,
      keystream =
        \<lparr>stream = replicate 16 0,
         state = [0x4D216F73, 0x63316734, 0, 0, 0, 0, 0, 0, 0, 0, 0, 0, 0, 0, 0, 0],
         current_block_index = 0, last_block_index = 0\<rparr>\<rparr>"

section \<open>The code against the block generation of the specification\<close>

subsection \<open>Rotation, shuffle, addition and packing\<close>

lemma rotl_word: 
  fixes x :: u32
  assumes "0 < k" "k < 32"
  shows "push_bit k x OR drop_bit (32 - k) x = word_rotl k x"
proof (rule bit_word_eqI)
  fix n assume "n < LENGTH(32)"
  then have n: "n < 32" by simp
  have L: "bit (push_bit k x OR drop_bit (32 - k) x) n
             \<longleftrightarrow> (k \<le> n \<and> bit x (n - k)) \<or> bit x (32 - k + n)"
    using n by (simp add: bit_or_iff bit_push_bit_iff bit_drop_bit_eq)
  have R: "bit (word_rotl k x) n \<longleftrightarrow> bit x ((n + (32 - k)) mod 32)"
    using n assms by (simp add: bit_word_rotl_iff)
  show "bit (push_bit k x OR drop_bit (32 - k) x) n = bit (word_rotl k x) n"
  proof (cases "k \<le> n")
    case True
    with n assms have m: "(n + (32 - k)) mod 32 = n - k"
      by (simp add: mod_if)
    from True assms have "\<not> bit x (32 - k + n)"
      using bit_imp_le_length [of x "32 - k + n"] by auto
    with True m show ?thesis
      unfolding L R by simp
  next
    case False
    with n assms have m: "(n + (32 - k)) mod 32 = 32 - k + n"
      by simp
    with False show ?thesis
      unfolding L R by simp
  qed
qed

lemma rotl32_spec: "0 < n \<Longrightarrow> n < 32 \<Longrightarrow> rotl32 x n = Some (spec_rotl x (nat n))"
proof -
  assume n: "0 < n" "n < 32"
  then have "nat (32 - n) = 32 - nat n" by simp
  with n show ?thesis
    by (simp add: rotl32_def spec_rotl_def rotl_word)
qed

lemma helix2_shuffle_spec:
  assumes "a < length s" "b < length s" "c < length s" "d < length s" "distinct [a, b, c, d]"
  shows "helix2_shuffle s a b c d = Some (spec_mix_group s (a, b, c, d))"
  using assms
  by (simp add: helix2_shuffle_def spec_mix_group_def spec_mix_def load_def store_def rotl32_spec Let_def
       list_update_swap)


lemma length_spec_mix_group [simp]: "length (spec_mix_group s g) = length s"
  by (simp add: spec_mix_group_def split: prod.splits)

lemma add_state_fold:
  "length st = length strm \<Longrightarrow> \<forall>k \<in> set ks. k < length strm \<Longrightarrow>
   add_state strm st ks = Some (fold (\<lambda>k s. s[k := s ! k + st ! k]) ks strm)"
  by (induction ks arbitrary: strm) (simp_all add: load_def store_def)

lemma fold_add_upt:
  "length st = length strm \<Longrightarrow> n \<le> length strm \<Longrightarrow>
   fold (\<lambda>k s. s[k := s ! k + st ! k]) [0..<n] strm = take n (map2 (+) strm st) @ drop n strm"
proof (induction n)
  case 0
  then show ?case by simp
next
  case (Suc n)
  then show ?case
    by (auto intro!: nth_equalityI simp add: nth_append nth_list_update less_Suc_eq)
qed

lemma add_state_spec:
  "length st = 16 \<Longrightarrow> length strm = 16 \<Longrightarrow> add_state strm st [0..<16] = Some (spec_add strm st)"
  by (simp add: add_state_fold fold_add_upt spec_add_def del: upt.simps)

lemma pack_step:
  fixes b :: u8 and y :: u32
  shows "ucast b + 256 * y = ucast b OR push_bit 8 y"
proof -
  have "256 * y = push_bit 8 y" by (simp add: push_bit_eq_mult)
  moreover have "ucast b + push_bit 8 y = (ucast b :: u32) OR push_bit 8 y"
    by (rule disjunctive_add_eq_or) (auto simp add: bit_eq_iff bit_simps dest: bit_imp_le_length)
  ultimately show ?thesis by simp
qed

lemma take4_drop:
  "off + 3 < length a \<Longrightarrow>
   take 4 (drop off a) = [a ! off, a ! (off + 1), a ! (off + 2), a ! (off + 3)]"
  by (auto intro!: nth_equalityI simp add: nth_Cons' less_Suc_eq numeral_eq_Suc)

lemma spec_pack4:
  "off + 3 < length a \<Longrightarrow> pack4 a off = Some (spec_pack (take 4 (drop off a)))"
  by (simp add: pack4_def load_def take4_drop spec_pack_def pack_step push_bit_or or.assoc)

lemma low_bits: "(ucast ((i :: u64) AND 0xFFFFFFFF) :: u32) = ucast i"
proof -
  have e: "(0xFFFFFFFF :: u64) = mask 32" by (simp add: mask_eq_exp_minus_1)
  show ?thesis
    unfolding e by (rule bit_word_eqI) (auto simp add: bit_simps)
qed

lemma high_bits: "(ucast (drop_bit 32 (i :: u64) AND 0xFFFFFFFF) :: u32) = ucast (drop_bit 32 i)"
  by (rule low_bits)



lemma initialize_keystream_spec:
  assumes "wf_context ctx"
  shows "helix2_initialize_keystream ctx =
     Some (ctx\<lparr>keystream := (keystream ctx)
       \<lparr>stream := spec_generate_words (state (keystream ctx)) (nonce ctx)
                    (current_block_index (keystream ctx)),
        state := spec_per_block_state (state (keystream ctx)) (nonce ctx)
                    (current_block_index (keystream ctx)),
        last_block_index := current_block_index (keystream ctx)\<rparr>\<rparr>)"
proof -
  define p where "p = spec_per_block_state (state (keystream ctx)) (nonce ctx)
                    (current_block_index (keystream ctx))"
  have lp: "length p = 16"
    using assms by (simp add: p_def spec_per_block_state_def wf_context_def)
  have st: "do { st \<leftarrow> store (state (keystream ctx)) 10 (ucast (current_block_index (keystream ctx) AND 0xFFFFFFFF));
                 n0 \<leftarrow> pack4 (nonce ctx) 0;
                 st \<leftarrow> store st 11 (n0 XOR ucast (drop_bit 32 (current_block_index (keystream ctx)) AND 0xFFFFFFFF));
                 f st } = f p" for f :: "u32 list \<Rightarrow> helix2_context option"
    using assms
    by (simp add: p_def spec_per_block_state_def wf_context_def store_def spec_pack4 low_bits high_bits)
  have cp: "memcpy (stream (keystream ctx)) p (HELIX2_KEYSTREAM_SIZE div 4) = Some p"
    using assms lp by (simp add: memcpy_def HELIX2_KEYSTREAM_SIZE_def wf_context_def)
  have rnd: "do { s \<leftarrow> helix2_shuffle s 0 1 2 3;
     s \<leftarrow> helix2_shuffle s 4 5 6 7;
     s \<leftarrow> helix2_shuffle s 8 9 10 11;
     s \<leftarrow> helix2_shuffle s 12 13 14 15;
     s \<leftarrow> helix2_shuffle s 0 4 8 12;
     s \<leftarrow> helix2_shuffle s 1 5 9 13;
     s \<leftarrow> helix2_shuffle s 2 6 10 14;
     s \<leftarrow> helix2_shuffle s 3 7 11 15;
     s \<leftarrow> helix2_shuffle s 0 5 10 15;
     s \<leftarrow> helix2_shuffle s 1 6 11 12;
     s \<leftarrow> helix2_shuffle s 2 7 8 13;
     s \<leftarrow> helix2_shuffle s 3 4 9 14;
     g s } = g (spec_round s)" if "length s = 16" for s and g :: "u32 list \<Rightarrow> helix2_context option"
    using that
    by (simp add: helix2_shuffle_spec spec_round_def spec_row_groups_def spec_column_groups_def
          spec_diagonal_groups_def)
  have l1: "length (spec_round s) = length s" for s
    by (simp add: spec_round_def spec_row_groups_def spec_column_groups_def spec_diagonal_groups_def)
  have l2: "length (spec_add s p) = 16" if "length s = 16" for s
    using that lp by (simp add: spec_add_def)
  show ?thesis
    unfolding helix2_initialize_keystream_def Let_def st
    by (simp only: cp Option.bind.simps rnd lp l1 l2 add_state_spec spec_generate_words_def Let_def
          p_def [symmetric])
qed

subsection \<open>Contexts positioned at a block\<close>

lemma store_ok: "i < length xs \<Longrightarrow> store xs i v = Some (xs[i := v])"
  by (simp add: store_def)

lemma length_spec_per_block_state [simp]:
  "length (spec_per_block_state st n i) = length st"
  by (simp add: spec_per_block_state_def)

lemma spec_per_block_state_again [simp]:
  "spec_per_block_state (spec_per_block_state st n i) n j = spec_per_block_state st n j"
  by (simp add: spec_per_block_state_def list_update_swap [of 10 11])

lemma spec_generate_words_again [simp]:
  "spec_generate_words (spec_per_block_state st n i) n j = spec_generate_words st n j"
  by (simp add: spec_generate_words_def)

lemma length_spec_round [simp]: "length (spec_round s) = length s"
  by (simp add: spec_round_def spec_row_groups_def spec_column_groups_def spec_diagonal_groups_def)

lemma length_spec_generate_words [simp]:
  "length (spec_generate_words st n i) = length st"
  by (simp add: spec_generate_words_def spec_add_def Let_def)

lemma set_next_block_at:
  "wf_context ctx \<Longrightarrow> helix2_buffer_set_next_block ctx i = Some (at_block ctx i)"
  by (simp add: helix2_buffer_set_next_block_def initialize_keystream_spec wf_context_def
        at_block_def block_words_def)

lemma at_block_at_block [simp]: "at_block (at_block ctx i) j = at_block ctx j"
  by (simp add: at_block_def block_words_def)

lemma wf_at_block [simp]: "wf_context ctx \<Longrightarrow> wf_context (at_block ctx i)"
  by (simp add: at_block_def wf_context_def block_words_def)

lemma coherent_at_block: "wf_context ctx \<Longrightarrow> coherent (at_block ctx i)"
  unfolding coherent_def by (simp add: at_block_def block_words_def wf_context_def)

lemma coherent_fix: "coherent ctx \<Longrightarrow> at_block ctx (last_block_index (keystream ctx)) = ctx"
  by (simp add: coherent_def at_block_def)

lemma at_block_current [simp]:
  "at_block (ctx\<lparr>keystream := (keystream ctx)\<lparr>current_block_index := j\<rparr>\<rparr>) i = at_block ctx i"
  by (simp add: at_block_def block_words_def)

lemma block_words_at_block [simp]: "block_words (at_block ctx i) j = block_words ctx j"
  by (simp add: at_block_def block_words_def)

lemma stream_at_block [simp]: "stream (keystream (at_block ctx i)) = block_words ctx i"
  by (simp add: at_block_def)

lemma last_at_block [simp]: "last_block_index (keystream (at_block ctx i)) = i"
  by (simp add: at_block_def)

lemma current_at_block [simp]: "current_block_index (keystream (at_block ctx i)) = i"
  by (simp add: at_block_def)

lemma length_keystream_bytes [simp]: "length (keystream_bytes ws) = 4 * length ws"
  by (induction ws) (simp_all add: keystream_bytes_def word_bytes_def)

lemma length_block_words: "wf_context ctx \<Longrightarrow> length (block_words ctx i) = 16"
  by (simp add: block_words_def wf_context_def)

lemma unat_mod64: "unat ((offset :: u64) mod 64) = unat offset mod 64"
  by (simp add: unat_mod_distrib)

lemma unat_block_offset: "unat (ucast ((offset :: u64) mod 64) :: u8) = unat offset mod 64"
proof -
  have "unat (ucast (offset mod 64) :: u8) = take_bit 8 (unat (offset mod 64))"
    by (simp add: unsigned_ucast_eq)
  also have "\<dots> = unat offset mod 64"
    by (simp add: unat_mod64 take_bit_eq_mod mod_mod_cancel)
  finally show ?thesis .
qed

lemma helix2_byte_at:
  assumes "coherent ctx"
  shows "helix2_byte ctx offset byte =
    Some (at_block ctx (offset div 64),
          byte XOR keystream_bytes (block_words ctx (offset div 64)) ! unat (offset mod 64))"
proof -
  from assms have wf: "wf_context ctx" by (simp add: coherent_def)
  let ?c = "ctx\<lparr>keystream := (keystream ctx)\<lparr>current_block_index := offset div 64\<rparr>\<rparr>"
  have wfc: "wf_context ?c" using wf by (simp add: wf_context_def)
  show ?thesis
  proof (cases "last_block_index (keystream ctx) = offset div 64")
    case True
    from assms True have cur: "current_block_index (keystream ctx) = offset div 64"
      by (simp add: coherent_def)
    from cur have c: "?c = ctx" by simp
    from assms True have a: "at_block ctx (offset div 64) = ctx"
      using coherent_fix [OF assms] by simp
    from assms True have s: "stream (keystream ctx) = block_words ctx (offset div 64)"
      by (simp add: coherent_def)
    have "helix2_byte ctx offset byte =
       load (keystream_bytes (stream (keystream ctx))) (unat (ucast (offset mod 64) :: u8)) \<bind>
         (\<lambda>k. Some (ctx, byte XOR k))"
      unfolding helix2_byte_def Let_def HELIX2_KEYSTREAM_SIZE_def using True cur by (simp add: c)
    then show ?thesis
      using wf by (simp add: s a load_def length_block_words unat_block_offset unat_mod64)
  next
    case False
    have "helix2_byte ctx offset byte =
       load (keystream_bytes (stream (keystream (at_block ctx (offset div 64)))))
          (unat (ucast (offset mod 64) :: u8)) \<bind>
         (\<lambda>k. Some (at_block ctx (offset div 64), byte XOR k))"
      unfolding helix2_byte_def Let_def HELIX2_KEYSTREAM_SIZE_def using False wfc
      by (simp add: set_next_block_at)
    then show ?thesis
      using wf by (simp add: load_def length_block_words unat_block_offset unat_mod64)
  qed
qed


lemma xor_blocks_shift:
  "xor_blocks blk b (pos + 64) xs = xor_blocks blk (b + 1) pos xs"
proof (induction xs arbitrary: pos)
  case Nil
  then show ?case by simp
next
  case (Cons x xs)
  have d: "(pos + 64) div 64 = Suc (pos div 64)" "(pos + 64) mod 64 = pos mod 64"
    by simp_all
  have "xor_blocks blk b (Suc (pos + 64)) xs = xor_blocks blk (b + 1) (Suc pos) xs"
    using Cons [of "Suc pos"] by simp
  then show ?case
    by (simp only: xor_blocks.simps d of_nat_Suc) (simp add: ac_simps)
qed

lemma helix2_buffer_loop_at:
  assumes "coherent ctx" "last_block_index (keystream ctx) = b" "unat bo \<le> 64"
  shows "\<exists>i. helix2_buffer_loop ctx b bo xs =
           Some (at_block ctx i, xor_blocks (\<lambda>i. keystream_bytes (block_words ctx i)) b (unat bo) xs)"
  using assms
proof (induction xs arbitrary: ctx b bo)
  case Nil
  then show ?case using coherent_fix [of ctx] by (auto intro: exI [of _ b])
next
  case (Cons x xs)
  from Cons.prems have wf: "wf_context ctx" by (simp add: coherent_def)
  let ?blk = "\<lambda>i. keystream_bytes (block_words ctx i)"
  show ?case
  proof (cases "bo \<ge> 64")
    case True
    with Cons.prems have bo: "unat bo = 64" by (simp add: word_le_nat_alt)
    let ?c = "at_block ctx (b + 1)"
    have c: "coherent ?c"
      using wf by (rule coherent_at_block)
    have c': "last_block_index (keystream ?c) = b + 1"
      by simp
    have one: "unat (1 :: u8) \<le> 64" by simp
    from Cons.IH [OF c c' one] obtain i where
      "helix2_buffer_loop ?c (b + 1) 1 xs = Some (at_block ?c i, xor_blocks (\<lambda>i. keystream_bytes (block_words ?c i)) (b + 1) (unat (1 :: u8)) xs)"
      by blast
    then have i: "helix2_buffer_loop ?c (b + 1) 1 xs = Some (at_block ctx i, xor_blocks ?blk (b + 1) 1 xs)"
      by simp
    have "helix2_buffer_loop ctx b bo (x # xs) =
        Some (at_block ctx i, (x XOR ?blk (b + 1) ! 0) # xor_blocks ?blk (b + 1) 1 xs)"
      using True wf i
      by (simp add: HELIX2_KEYSTREAM_SIZE_def set_next_block_at load_def length_block_words)
    also have "xor_blocks ?blk (b + 1) 1 xs = xor_blocks ?blk b (Suc (unat bo)) xs"
      using xor_blocks_shift [of ?blk b 1 xs] by (simp add: bo)
    finally show ?thesis by (auto simp add: bo)
  next
    case False
    then have lt: "unat bo < 64" by (simp add: word_le_nat_alt not_le)
    then have suc: "unat (bo + 1) = Suc (unat bo)"
      by (simp add: unat_word_ariths)
    then have le: "unat (bo + 1) \<le> 64" using lt by simp
    from Cons.IH [OF Cons.prems(1) Cons.prems(2) le] obtain i where
      i: "helix2_buffer_loop ctx b (bo + 1) xs = Some (at_block ctx i, xor_blocks ?blk b (unat (bo + 1)) xs)"
      by blast
    have s: "stream (keystream ctx) = block_words ctx b"
      using Cons.prems by (simp add: coherent_def)
    show ?thesis
      using False wf i lt
      by (auto simp add: HELIX2_KEYSTREAM_SIZE_def load_def length_block_words s suc)
  qed
qed

subsection \<open>Buffer calls, byte calls and construction\<close>

lemma helix2_buffer_at:
  assumes "coherent ctx" "sz \<le> length buffer"
  shows "\<exists>i. helix2_buffer ctx buffer sz start_offset =
           Some (at_block ctx i,
                 xor_blocks (\<lambda>i. keystream_bytes (block_words ctx i))
                    (start_offset div 64) (unat (start_offset mod 64)) (take sz buffer)
                 @ drop sz buffer)"
proof -
  from assms have wf: "wf_context ctx" by (simp add: coherent_def)
  let ?b = "start_offset div 64"
  let ?bo = "ucast (start_offset mod 64) :: u8"
  let ?c = "at_block ctx ?b"
  have c: "coherent ?c" using wf by (rule coherent_at_block)
  have bo: "unat ?bo \<le> 64" by (simp add: unat_block_offset)
  have pre: "(if last_block_index (keystream ctx) \<noteq> ?b
              then helix2_buffer_set_next_block ctx ?b else Some ctx) = Some ?c"
    using wf coherent_fix [OF assms(1)] by (auto simp add: set_next_block_at)
  from helix2_buffer_loop_at [OF c _ bo, of ?b "take sz buffer"] obtain i where
    "helix2_buffer_loop ?c ?b ?bo (take sz buffer) =
       Some (at_block ?c i, xor_blocks (\<lambda>i. keystream_bytes (block_words ?c i)) ?b (unat ?bo) (take sz buffer))"
    by auto
  then have "helix2_buffer_loop ?c ?b ?bo (take sz buffer) =
       Some (at_block ctx i, xor_blocks (\<lambda>i. keystream_bytes (block_words ctx i)) ?b
               (unat (start_offset mod 64)) (take sz buffer))"
    by (simp add: unat_block_offset unat_mod64)
  then show ?thesis
    using assms(2) unfolding helix2_buffer_def Let_def HELIX2_KEYSTREAM_SIZE_def of_nat_numeral pre
    by auto
qed

lemma byte_calls_at:
  assumes "coherent ctx"
  shows "\<exists>i. byte_calls ctx offset xs =
           Some (at_block ctx i, xor_offsets (\<lambda>i. keystream_bytes (block_words ctx i)) offset xs)"
  using assms
proof (induction xs arbitrary: ctx offset)
  case Nil
  then show ?case using coherent_fix [of ctx] by (auto intro: exI [of _ "last_block_index (keystream ctx)"])
next
  case (Cons x xs)
  from Cons.prems have wf: "wf_context ctx" by (simp add: coherent_def)
  let ?c = "at_block ctx (offset div 64)"
  have c: "coherent ?c" using wf by (rule coherent_at_block)
  from Cons.IH [OF c, of "offset + 1"] obtain i where
    "byte_calls ?c (offset + 1) xs =
       Some (at_block ?c i, xor_offsets (\<lambda>i. keystream_bytes (block_words ?c i)) (offset + 1) xs)"
    by blast
  then have "byte_calls ?c (offset + 1) xs =
       Some (at_block ctx i, xor_offsets (\<lambda>i. keystream_bytes (block_words ctx i)) (offset + 1) xs)"
    by simp
  then show ?case
    by (auto simp add: helix2_byte_at [OF Cons.prems] unat_mod64)
qed

lemma xor_blocks_offsets:
  assumes "unat offset = 64 * unat b + pos" "unat offset + length xs \<le> 2 ^ 64"
  shows "xor_blocks blk b pos xs = xor_offsets blk offset xs"
  using assms
proof (induction xs arbitrary: offset pos)
  case Nil
  then show ?case by simp
next
  case (Cons x xs)
  have lt: "unat offset < 2 ^ 64" using unsigned_less [of offset] by simp
  have d: "unat (offset div 64) = unat b + pos div 64"
    using Cons.prems(1) by (simp add: unat_div_distrib)
  have "unat b + pos div 64 < 2 ^ 64"
    using d [symmetric] unsigned_less [of "offset div 64"] by simp
  then have "unat (b + of_nat (pos div 64)) = unat b + pos div 64"
    by (simp add: unat_word_ariths unat_of_nat)
  with d have blk: "b + of_nat (pos div 64) = offset div 64"
    by (simp add: word_unat_eq_iff)
  have m: "unat (offset mod 64) = pos mod 64"
    using Cons.prems(1) by (simp add: unat_mod64)
  have tl: "xor_blocks blk b (Suc pos) xs = xor_offsets blk (offset + 1) xs"
  proof (cases xs)
    case Nil
    then show ?thesis by simp
  next
    case (Cons y ys)
    with Cons.prems(2) have "unat offset + 1 < 2 ^ 64" by simp
    then have s: "unat (offset + 1) = unat offset + 1"
      by (simp add: unat_word_ariths)
    show ?thesis
      by (rule Cons.IH) (use s Cons.prems in simp_all)
  qed
  show ?case by (simp add: blk m tl)
qed

lemma xor_blocks_start:
  assumes "unat start_offset + length xs \<le> 2 ^ 64"
  shows "xor_blocks blk (start_offset div 64) (unat (start_offset mod 64)) xs =
         xor_offsets blk start_offset xs"
  by (rule xor_blocks_offsets) (use assms in \<open>simp_all add: unat_div_distrib unat_mod64\<close>)


lemma pack4_ok: "off + 3 < length a \<Longrightarrow> \<exists>w. pack4 a off = Some w"
  by (simp add: spec_pack4)

lemma pack_key_ok:
  "\<forall>i \<in> set js. i * 4 + 3 < length k \<and> 2 + i < length st \<Longrightarrow>
   \<exists>st'. pack_key k js st = Some st' \<and> length st' = length st"
proof (induction js arbitrary: st)
  case Nil
  then show ?case by simp
next
  case (Cons j js)
  then obtain w where w: "pack4 k (j * 4) = Some w"
    using pack4_ok [of "j * 4" k] by auto
  from Cons.prems have "\<forall>i \<in> set js. i * 4 + 3 < length k \<and> 2 + i < length (st[2 + j := w])"
    by simp
  from Cons.IH [OF this] Cons.prems show ?case
    by (simp add: w store_def)
qed

lemma initialize_context_at:
  assumes "32 \<le> length key_in" "20 \<le> length nonce_in"
  shows "\<exists>c. wf_context c \<and> key c = take 32 key_in \<and> nonce c = take 20 nonce_in \<and>
             helix2_initialize_context key_in nonce_in = Some (at_block c 0)"
proof -
  obtain w0 where w0: "pack4 magic_constant 0 = Some w0"
    using pack4_ok [of 0 magic_constant] by (auto simp add: magic_constant_def)
  obtain w1 where w1: "pack4 magic_constant 4 = Some w1"
    using pack4_ok [of 4 magic_constant] by (auto simp add: magic_constant_def)
  let ?k = "take 32 key_in" and ?n = "take 20 nonce_in"
  let ?st1 = "(replicate 16 (0 :: u32))[0 := w0, 1 := w1]"
  have "\<forall>i \<in> set [0..<8]. i * 4 + 3 < length ?k \<and> 2 + i < length ?st1"
    using assms by auto
  from pack_key_ok [OF this] obtain st2 where
    st2: "pack_key ?k [0..<8] ?st1 = Some st2" "length st2 = 16"
    by auto
  obtain n0 where n0: "pack4 ?n 0 = Some n0" using pack4_ok [of 0 ?n] assms by auto
  obtain n1 where n1: "pack4 ?n 4 = Some n1" using pack4_ok [of 4 ?n] assms by auto
  obtain n2 where n2: "pack4 ?n 8 = Some n2" using pack4_ok [of 8 ?n] assms by auto
  obtain n3 where n3: "pack4 ?n 12 = Some n3" using pack4_ok [of 12 ?n] assms by auto
  obtain n4 where n4: "pack4 ?n 16 = Some n4" using pack4_ok [of 16 ?n] assms by auto
  let ?st = "st2[10 := 0, 11 := n0, 12 := n1, 13 := n2, 14 := n3, 15 := n4]"
  let ?c = "\<lparr>nonce = ?n, key = ?k,
             keystream = \<lparr>stream = replicate 16 0, state = ?st,
                          current_block_index = 0, last_block_index = 0\<rparr>\<rparr>"
  have wf: "wf_context ?c" using assms st2 by (simp add: wf_context_def)
  have "helix2_initialize_context key_in nonce_in = helix2_buffer_set_next_block ?c 0"
    using assms st2
    by (simp add: helix2_initialize_context_def Let_def memcpy_def w0 w1 n0 n1 n2 n3 n4 store_def
          del: upt.simps)
  with wf show ?thesis
    by (intro exI [of _ ?c]) (simp add: set_next_block_at)
qed

lemma run_call_at:
  assumes "coherent ctx"
  shows "\<exists>i. run_call ctx c = Some (at_block ctx i)"
proof (cases c)
  case (Byte offset byte)
  then show ?thesis by (auto simp add: helix2_byte_at [OF assms])
next
  case (Buffer buffer start_offset)
  from helix2_buffer_at [OF assms order_refl, of buffer start_offset] Buffer
  show ?thesis by auto
next
  case (Set_next_block i)
  with assms show ?thesis by (auto simp add: coherent_def set_next_block_at)
next
  case Next_block
  with assms show ?thesis
    by (auto simp add: coherent_def helix2_buffer_next_block_def set_next_block_at)
qed

lemma run_calls_at:
  assumes "coherent ctx"
  shows "\<exists>i. run_calls ctx cs = Some (at_block ctx i)"
  using assms
proof (induction cs arbitrary: ctx)
  case Nil
  then show ?case using coherent_fix [of ctx] by (auto intro: exI [of _ "last_block_index (keystream ctx)"])
next
  case (Cons c cs)
  from run_call_at [OF Cons.prems, of c] obtain i where i: "run_call ctx c = Some (at_block ctx i)"
    by blast
  from Cons.prems have "wf_context ctx" by (simp add: coherent_def)
  then have "coherent (at_block ctx i)" by (rule coherent_at_block)
  from Cons.IH [OF this] show ?case by (simp add: i)
qed

subsection \<open>The copy without a cache, and the serialisation\<close>

lemma length_block_words_u: "wf_context_u ctx \<Longrightarrow> length (block_words_u ctx i) = 16"
  by (simp add: block_words_u_def wf_context_u_def Let_def spec_add_def spec_row_groups_def
        spec_column_groups_def spec_diagonal_groups_def)

lemma initialize_keystream_u_at:
  assumes "wf_context_u ctx"
  shows "helix2_initialize_keystream_u ctx i = Some (at_block_u ctx i)"
proof -
  define p where "p = spec_per_block_state (u_state ctx) (u_nonce ctx) i"
  have lp: "length p = 16"
    using assms by (simp add: p_def wf_context_u_def)
  have st: "do { st \<leftarrow> store (u_state ctx) 10 (ucast (i AND 0xFFFFFFFF));
                 n0 \<leftarrow> pack4 (u_nonce ctx) 0;
                 st \<leftarrow> store st 11 (n0 XOR ucast (drop_bit 32 i AND 0xFFFFFFFF));
                 f st } = f p" for f :: "u32 list \<Rightarrow> helix2_context_u option"
    using assms
    by (simp add: p_def spec_per_block_state_def wf_context_u_def store_def spec_pack4 low_bits high_bits)
  have cp: "memcpy (u_stream ctx) p (HELIX2_KEYSTREAM_SIZE div 4) = Some p"
    using assms lp by (simp add: memcpy_def HELIX2_KEYSTREAM_SIZE_def wf_context_u_def)
  have r1: "do { s \<leftarrow> helix2_shuffle s 0 1 2 3;
     s \<leftarrow> helix2_shuffle s 4 5 6 7;
     s \<leftarrow> helix2_shuffle s 8 9 10 11;
     s \<leftarrow> helix2_shuffle s 12 13 14 15;
     s \<leftarrow> helix2_shuffle s 0 5 10 15;
     s \<leftarrow> helix2_shuffle s 1 6 11 12;
     s \<leftarrow> helix2_shuffle s 2 7 8 13;
     s \<leftarrow> helix2_shuffle s 3 4 9 14;
     g s } = g (foldl spec_mix_group s (spec_row_groups @ spec_diagonal_groups))"
    if "length s = 16" for s and g :: "u32 list \<Rightarrow> helix2_context_u option"
    using that
    by (simp add: helix2_shuffle_spec spec_row_groups_def spec_diagonal_groups_def)
  have r2: "do { s \<leftarrow> helix2_shuffle s 0 4 8 12;
     s \<leftarrow> helix2_shuffle s 1 5 9 13;
     s \<leftarrow> helix2_shuffle s 2 6 10 14;
     s \<leftarrow> helix2_shuffle s 3 7 11 15;
     s \<leftarrow> helix2_shuffle s 3 6 9 12;
     s \<leftarrow> helix2_shuffle s 2 5 8 15;
     s \<leftarrow> helix2_shuffle s 1 4 11 14;
     s \<leftarrow> helix2_shuffle s 0 7 10 13;
     g s } = g (foldl spec_mix_group s
                (spec_column_groups @ [(3, 6, 9, 12), (2, 5, 8, 15), (1, 4, 11, 14), (0, 7, 10, 13)]))"
    if "length s = 16" for s and g :: "u32 list \<Rightarrow> helix2_context_u option"
    using that
    by (simp add: helix2_shuffle_spec spec_column_groups_def)
  have l1: "length (foldl spec_mix_group s (spec_row_groups @ spec_diagonal_groups)) = length s" for s
    by (simp add: spec_row_groups_def spec_diagonal_groups_def)
  have l2: "length (spec_add s p) = 16" if "length s = 16" for s
    using that lp by (simp add: spec_add_def)
  have l3: "length (foldl spec_mix_group s
                (spec_column_groups @ [(3, 6, 9, 12), (2, 5, 8, 15), (1, 4, 11, 14), (0, 7, 10, 13)]))
             = length s" for s
    by (simp add: spec_column_groups_def)
  show ?thesis
    unfolding helix2_initialize_keystream_u_def Let_def st
    by (simp only: cp Option.bind.simps r1 r2 lp l1 l2 l3 add_state_spec at_block_u_def block_words_u_def
          Let_def p_def [symmetric])
qed

lemma block_words_u_at_block_u [simp]: "block_words_u (at_block_u ctx i) j = block_words_u ctx j"
  by (simp add: at_block_u_def block_words_u_def)

lemma wf_at_block_u: "wf_context_u ctx \<Longrightarrow> wf_context_u (at_block_u ctx i)"
  using length_block_words_u [of ctx i] by (simp add: at_block_u_def wf_context_u_def)

lemma u_stream_at_block_u [simp]: "u_stream (at_block_u ctx i) = block_words_u ctx i"
  by (simp add: at_block_u_def)

lemma helix2_buffer_loop_u_at:
  assumes "wf_context_u ctx" "u_stream ctx = block_words_u ctx b" "unat bo \<le> 64"
  shows "\<exists>ctx'. helix2_buffer_loop_u ctx b bo xs =
           Some (ctx', xor_blocks (\<lambda>i. keystream_bytes (block_words_u ctx i)) b (unat bo) xs)"
  using assms
proof (induction xs arbitrary: ctx b bo)
  case Nil
  then show ?case by simp
next
  case (Cons x xs)
  let ?blk = "\<lambda>i. keystream_bytes (block_words_u ctx i)"
  show ?case
  proof (cases "bo \<ge> 64")
    case True
    with Cons.prems have bo: "unat bo = 64" by (simp add: word_le_nat_alt)
    let ?c = "at_block_u ctx (b + 1)"
    have c: "wf_context_u ?c" using Cons.prems(1) by (rule wf_at_block_u)
    have c': "u_stream ?c = block_words_u ?c (b + 1)" by simp
    have one: "unat (1 :: u8) \<le> 64" by simp
    from Cons.IH [OF c c' one] obtain d where
      "helix2_buffer_loop_u ?c (b + 1) 1 xs =
         Some (d, xor_blocks (\<lambda>i. keystream_bytes (block_words_u ?c i)) (b + 1) (unat (1 :: u8)) xs)"
      by blast
    then have d: "helix2_buffer_loop_u ?c (b + 1) 1 xs = Some (d, xor_blocks ?blk (b + 1) 1 xs)"
      by simp
    have "helix2_buffer_loop_u ctx b bo (x # xs) =
        Some (d, (x XOR ?blk (b + 1) ! 0) # xor_blocks ?blk (b + 1) 1 xs)"
      using True Cons.prems(1) d
      by (simp add: HELIX2_KEYSTREAM_SIZE_def initialize_keystream_u_at load_def length_block_words_u)
    also have "xor_blocks ?blk (b + 1) 1 xs = xor_blocks ?blk b (Suc (unat bo)) xs"
      using xor_blocks_shift [of ?blk b 1 xs] by (simp add: bo)
    finally show ?thesis by (auto simp add: bo)
  next
    case False
    then have lt: "unat bo < 64" by (simp add: word_le_nat_alt not_le)
    then have suc: "unat (bo + 1) = Suc (unat bo)"
      by (simp add: unat_word_ariths)
    then have le: "unat (bo + 1) \<le> 64" using lt by simp
    from Cons.IH [OF Cons.prems(1) Cons.prems(2) le] obtain d where
      d: "helix2_buffer_loop_u ctx b (bo + 1) xs = Some (d, xor_blocks ?blk b (unat (bo + 1)) xs)"
      by blast
    show ?thesis
      using False Cons.prems(1) d lt
      by (auto simp add: HELIX2_KEYSTREAM_SIZE_def load_def length_block_words_u Cons.prems(2) suc)
  qed
qed

lemma helix2_buffer_u_at:
  assumes "wf_context_u ctx" "sz \<le> length buffer"
  shows "\<exists>ctx'. helix2_buffer_u ctx buffer sz start_offset =
           Some (ctx',
                 xor_blocks (\<lambda>i. keystream_bytes (block_words_u ctx i))
                    (start_offset div 64) (unat (start_offset mod 64)) (take sz buffer)
                 @ drop sz buffer)"
proof -
  let ?b = "start_offset div 64"
  let ?bo = "ucast (start_offset mod 64) :: u8"
  let ?c = "at_block_u ctx ?b"
  have c: "wf_context_u ?c" using assms(1) by (rule wf_at_block_u)
  have c': "u_stream ?c = block_words_u ?c ?b" by simp
  have bo: "unat ?bo \<le> 64" by (simp add: unat_block_offset)
  from helix2_buffer_loop_u_at [OF c c' bo, of "take sz buffer"] obtain d where
    "helix2_buffer_loop_u ?c ?b ?bo (take sz buffer) =
       Some (d, xor_blocks (\<lambda>i. keystream_bytes (block_words_u ?c i)) ?b (unat ?bo) (take sz buffer))"
    by auto
  then have "helix2_buffer_loop_u ?c ?b ?bo (take sz buffer) =
       Some (d, xor_blocks (\<lambda>i. keystream_bytes (block_words_u ctx i)) ?b
               (unat (start_offset mod 64)) (take sz buffer))"
    by (simp add: unat_block_offset unat_mod64)
  then show ?thesis
    using assms unfolding helix2_buffer_u_def Let_def HELIX2_KEYSTREAM_SIZE_def of_nat_numeral
    by (auto simp add: initialize_keystream_u_at)
qed

lemma initialize_context_u_ok:
  assumes "32 \<le> length key_in" "20 \<le> length nonce_in"
  shows "\<exists>c. wf_context_u c \<and> helix2_initialize_context_u key_in nonce_in = Some c"
proof -
  obtain w0 where w0: "pack4 magic_constant 0 = Some w0"
    using pack4_ok [of 0 magic_constant] by (auto simp add: magic_constant_def)
  obtain w1 where w1: "pack4 magic_constant 4 = Some w1"
    using pack4_ok [of 4 magic_constant] by (auto simp add: magic_constant_def)
  let ?k = "take 32 key_in" and ?n = "take 20 nonce_in"
  obtain k0 where k0: "pack4 ?k 0 = Some k0" using pack4_ok [of 0 ?k] assms by auto
  obtain k1 where k1: "pack4 ?k 4 = Some k1" using pack4_ok [of 4 ?k] assms by auto
  obtain k2 where k2: "pack4 ?k 8 = Some k2" using pack4_ok [of 8 ?k] assms by auto
  obtain k3 where k3: "pack4 ?k 12 = Some k3" using pack4_ok [of 12 ?k] assms by auto
  obtain k4 where k4: "pack4 ?k 16 = Some k4" using pack4_ok [of 16 ?k] assms by auto
  obtain k5 where k5: "pack4 ?k 20 = Some k5" using pack4_ok [of 20 ?k] assms by auto
  obtain k6 where k6: "pack4 ?k 24 = Some k6" using pack4_ok [of 24 ?k] assms by auto
  obtain k7 where k7: "pack4 ?k 28 = Some k7" using pack4_ok [of 28 ?k] assms by auto
  obtain n0 where n0: "pack4 ?n 0 = Some n0" using pack4_ok [of 0 ?n] assms by auto
  obtain n1 where n1: "pack4 ?n 4 = Some n1" using pack4_ok [of 4 ?n] assms by auto
  obtain n2 where n2: "pack4 ?n 8 = Some n2" using pack4_ok [of 8 ?n] assms by auto
  obtain n3 where n3: "pack4 ?n 12 = Some n3" using pack4_ok [of 12 ?n] assms by auto
  obtain n4 where n4: "pack4 ?n 16 = Some n4" using pack4_ok [of 16 ?n] assms by auto
  show ?thesis
    using assms
    by (simp add: helix2_initialize_context_u_def Let_def memcpy_def w0 w1 k0 k1 k2 k3 k4 k5 k6 k7
          n0 n1 n2 n3 n4 store_def wf_context_u_def)
qed

lemma ucast_mod_256: "(ucast ((x :: u32) mod 256) :: u8) = ucast x"
proof -
  have "x mod 256 = take_bit 8 x" by (simp add: take_bit_eq_mod)
  then show ?thesis
    by (simp only:) (rule bit_word_eqI, simp add: bit_simps)
qed

lemma byte_of_word:
  "(ucast (drop_bit n (w :: u32)) :: u8) = ucast (w div 2 ^ n mod 256)"
  by (simp only: ucast_mod_256 drop_bit_eq_div)

lemma word_bytes_nth:
  "k < 4 \<Longrightarrow> word_bytes w ! k = ucast (w div 256 ^ k mod 256)"
proof -
  assume "k < 4"
  then consider "k = 0" | "k = 1" | "k = 2" | "k = 3" by linarith
  then show ?thesis
  proof cases
    case 1
    then show ?thesis using byte_of_word [of 0 w] by (simp add: word_bytes_def)
  next
    case 2
    then show ?thesis using byte_of_word [of 8 w] by (simp add: word_bytes_def)
  next
    case 3
    then show ?thesis using byte_of_word [of 16 w] by (simp add: word_bytes_def)
  next
    case 4
    then show ?thesis using byte_of_word [of 24 w] by (simp add: word_bytes_def)
  qed
qed

lemma length_word_bytes [simp]: "length (word_bytes w) = 4"
  by (simp add: word_bytes_def)

lemma keystream_bytes_Cons: "keystream_bytes (w # ws) = word_bytes w @ keystream_bytes ws"
  by (simp add: keystream_bytes_def)

lemma keystream_bytes_nth:
  "j < 4 * length ws \<Longrightarrow> keystream_bytes ws ! j = word_bytes (ws ! (j div 4)) ! (j mod 4)"
proof (induction ws arbitrary: j)
  case Nil
  then show ?case by simp
next
  case (Cons w ws)
  show ?case
  proof (cases "j < 4")
    case True
    then show ?thesis by (simp add: keystream_bytes_Cons nth_append)
  next
    case False
    then have d: "j div 4 = Suc ((j - 4) div 4)" "j mod 4 = (j - 4) mod 4"
      by (simp_all add: le_div_geq le_mod_geq)
    have "keystream_bytes (w # ws) ! j = keystream_bytes ws ! (j - 4)"
      using False by (simp add: keystream_bytes_Cons nth_append)
    also have "\<dots> = word_bytes (ws ! ((j - 4) div 4)) ! ((j - 4) mod 4)"
      using Cons.prems False by (intro Cons.IH) simp
    also have "\<dots> = word_bytes ((w # ws) ! (j div 4)) ! (j mod 4)"
      by (simp only: d nth_Cons_Suc)
    finally show ?thesis .
  qed
qed

lemma spec_serialize_eq: "spec_serialize ws = keystream_bytes ws"
  by (rule nth_equalityI)
     (simp_all add: spec_serialize_def keystream_bytes_nth word_bytes_nth del: upt.simps)

section \<open>Evaluated blocks\<close>

text \<open>
  The blocks are computed once, by rewriting with the code equations: block 0 for the
  all-zero key and nonce, by construction and by the set-block call on the context that
  construction holds before that call, block 0 for the second test key, the first byte of
  block \<open>2\<^sup>5\<^sup>8\<close> for the all-zero key and nonce, and block 0 of the copy without a
  cache.
\<close>

lemma vector_context_init:
  "helix2_initialize_context vector_key vector_nonce = Some vector_context"
  by code_simp

lemma vector_seed_generate:
  "helix2_buffer_set_next_block vector_seed_context 0 = Some vector_context"
  by code_simp

lemma vector_key2_block_0:
  "map_option (\<lambda>c. take 4 (keystream_bytes (stream (keystream c))))
     (helix2_initialize_context vector_key2 vector_nonce) = Some [0xEF, 0x71, 0xCB, 0xC9]"
  by code_simp

lemma vector_block_high:
  "map_option (\<lambda>c. hd (keystream_bytes (stream (keystream c))))
     (helix2_buffer_set_next_block vector_context 0x0400000000000000) = Some 0xC2"
  by code_simp

lemma vector_buffer_u:
  "buffer_u vector_key vector_nonce [0] 1 0 = Some [0x81]"
  by code_simp

lemma vector_buffer:
  "helix2_buffer vector_context [0] 1 0 = Some (vector_context, [0x14])"
  by code_simp

lemma vector_bytes:
  "take 4 (keystream_bytes (stream (keystream vector_context))) = [0x14, 0x84, 0xEC, 0xFD]"
  by code_simp

section \<open>Constructed contexts\<close>

text \<open>
  Every context that construction and later calls produce is some \<open>at_block c i\<close>, hence
  coherent; the byte and buffer transforms on it are the XOR with the keystream of a fresh
  context.
\<close>

lemma constructed_at:
  assumes "32 \<le> length key_in" "20 \<le> length nonce_in"
  shows "\<exists>c i. wf_context c \<and> key c = take 32 key_in \<and> nonce c = take 20 nonce_in \<and>
          helix2_initialize_context key_in nonce_in = Some (at_block c 0) \<and>
          constructed key_in nonce_in cs = Some (at_block c i) \<and>
          (\<forall>j. keystream_block key_in nonce_in j = keystream_bytes (block_words c j))"
proof -
  from initialize_context_at [OF assms] obtain c where
    c: "wf_context c" "key c = take 32 key_in" "nonce c = take 20 nonce_in"
       "helix2_initialize_context key_in nonce_in = Some (at_block c 0)"
    by blast
  have wf0: "wf_context (at_block c 0)" using c(1) by (rule wf_at_block)
  have "coherent (at_block c 0)" using c(1) by (rule coherent_at_block)
  from run_calls_at [OF this, of cs] obtain i where
    "run_calls (at_block c 0) cs = Some (at_block c i)"
    by auto
  then have "constructed key_in nonce_in cs = Some (at_block c i)"
    by (simp add: constructed_def c(4))
  moreover have "keystream_block key_in nonce_in j = keystream_bytes (block_words c j)" for j
    by (simp add: keystream_block_def c(4) set_next_block_at [OF wf0])
  ultimately show ?thesis using c by blast
qed

lemma byte_on_eq:
  assumes "32 \<le> length key_in" "20 \<le> length nonce_in"
  shows "byte_on key_in nonce_in cs offset byte =
           Some (byte XOR keystream_block key_in nonce_in (offset div 64) ! unat (offset mod 64))"
proof -
  from constructed_at [OF assms, of cs] obtain c i where
    c: "wf_context c" "constructed key_in nonce_in cs = Some (at_block c i)"
       "\<And>j. keystream_block key_in nonce_in j = keystream_bytes (block_words c j)"
    by blast
  have "coherent (at_block c i)" using c(1) by (rule coherent_at_block)
  from helix2_byte_at [OF this] show ?thesis
    by (simp add: byte_on_def c(2) c(3))
qed

lemma buffer_on_eq:
  assumes "32 \<le> length key_in" "20 \<le> length nonce_in" "sz \<le> length buffer"
  shows "buffer_on key_in nonce_in cs buffer sz start_offset =
           Some (xor_blocks (keystream_block key_in nonce_in) (start_offset div 64)
                   (unat (start_offset mod 64)) (take sz buffer) @ drop sz buffer)"
proof -
  from constructed_at [OF assms(1,2), of cs] obtain c i where
    c: "wf_context c" "constructed key_in nonce_in cs = Some (at_block c i)"
       "\<And>j. keystream_block key_in nonce_in j = keystream_bytes (block_words c j)"
    by blast
  have "coherent (at_block c i)" using c(1) by (rule coherent_at_block)
  from helix2_buffer_at [OF this assms(3), of start_offset] obtain k where
    "helix2_buffer (at_block c i) buffer sz start_offset =
       Some (at_block (at_block c i) k,
             xor_blocks (\<lambda>j. keystream_bytes (block_words (at_block c i) j))
               (start_offset div 64) (unat (start_offset mod 64)) (take sz buffer) @ drop sz buffer)"
    by blast
  moreover have "keystream_block key_in nonce_in = (\<lambda>j. keystream_bytes (block_words c j))"
    using c(3) by (rule ext)
  ultimately show ?thesis
    by (simp add: buffer_on_def c(2))
qed

lemma byte_calls_on_eq:
  assumes "32 \<le> length key_in" "20 \<le> length nonce_in"
  shows "byte_calls_on key_in nonce_in cs buffer sz start_offset =
           Some (xor_offsets (keystream_block key_in nonce_in) start_offset (take sz buffer)
                 @ drop sz buffer)"
proof -
  from constructed_at [OF assms(1,2), of cs] obtain c i where
    c: "wf_context c" "constructed key_in nonce_in cs = Some (at_block c i)"
       "\<And>j. keystream_block key_in nonce_in j = keystream_bytes (block_words c j)"
    by blast
  have "coherent (at_block c i)" using c(1) by (rule coherent_at_block)
  from byte_calls_at [OF this, of start_offset "take sz buffer"] obtain k where
    "byte_calls (at_block c i) start_offset (take sz buffer) =
       Some (at_block (at_block c i) k,
             xor_offsets (\<lambda>j. keystream_bytes (block_words (at_block c i) j))
               start_offset (take sz buffer))"
    by blast
  moreover have "keystream_block key_in nonce_in = (\<lambda>j. keystream_bytes (block_words c j))"
    using c(3) by (rule ext)
  ultimately show ?thesis
    by (simp add: byte_calls_on_def c(2))
qed

lemma buffer_u_eq:
  assumes "32 \<le> length key_in" "20 \<le> length nonce_in" "sz \<le> length buffer"
  shows "buffer_u key_in nonce_in buffer sz start_offset =
           Some (xor_blocks (keystream_block_u key_in nonce_in) (start_offset div 64)
                   (unat (start_offset mod 64)) (take sz buffer) @ drop sz buffer)"
proof -
  from initialize_context_u_ok [OF assms(1,2)] obtain c where
    c: "wf_context_u c" "helix2_initialize_context_u key_in nonce_in = Some c"
    by blast
  from helix2_buffer_u_at [OF c(1) assms(3), of start_offset] obtain d where
    "helix2_buffer_u c buffer sz start_offset =
       Some (d, xor_blocks (\<lambda>j. keystream_bytes (block_words_u c j))
               (start_offset div 64) (unat (start_offset mod 64)) (take sz buffer) @ drop sz buffer)"
    by blast
  moreover have "keystream_block_u key_in nonce_in = (\<lambda>j. keystream_bytes (block_words_u c j))"
    by (rule ext) (simp add: keystream_block_u_def c(2) initialize_keystream_u_at [OF c(1)])
  ultimately show ?thesis
    by (simp add: buffer_u_def c(2))
qed

lemma vector_lengths: "32 \<le> length vector_key" "20 \<le> length vector_nonce"
  by (simp_all add: vector_key_def vector_nonce_def)

lemma wf_vector_context: "wf_context vector_context"
  by (simp add: wf_context_def vector_context_def)

lemma coherent_vector_context: "coherent vector_context"
proof -
  from initialize_context_at [OF vector_lengths] obtain c where
    "wf_context c" "helix2_initialize_context vector_key vector_nonce = Some (at_block c 0)"
    by blast
  then show ?thesis
    using coherent_at_block [of c 0] by (simp add: vector_context_init)
qed

lemma vector_block_low: "keystream_bytes (block_words vector_context 0) ! 0 = 0x14"
proof -
  have "block_words vector_context 0 = stream (keystream vector_context)"
    using coherent_vector_context by (simp add: coherent_def vector_context_def)
  moreover have "take 4 (keystream_bytes (stream (keystream vector_context))) ! 0 = 0x14"
    by (simp only: vector_bytes) simp
  ultimately show ?thesis by simp
qed

lemma vector_block_high_byte:
  "keystream_bytes (block_words vector_context 0x0400000000000000) ! 0 = 0xC2"
proof -
  have "hd (keystream_bytes (block_words vector_context 0x0400000000000000)) = 0xC2"
    using vector_block_high by (simp add: set_next_block_at [OF wf_vector_context])
  moreover have "keystream_bytes (block_words vector_context 0x0400000000000000) \<noteq> []"
  proof
    assume "keystream_bytes (block_words vector_context 0x0400000000000000) = []"
    then have "length (keystream_bytes (block_words vector_context 0x0400000000000000)) = 0"
      by (simp only: list.size)
    then show False
      by (simp add: length_block_words [OF wf_vector_context])
  qed
  ultimately show ?thesis by (simp add: hd_conv_nth)
qed

lemma last_offset:
  "(0xFFFFFFFFFFFFFFFF :: u64) div 64 = 0x03FFFFFFFFFFFFFF"
  "unat ((0xFFFFFFFFFFFFFFFF :: u64) mod 64) = 63"
  "(0x03FFFFFFFFFFFFFF :: u64) + 1 = 0x0400000000000000"
  "(0xFFFFFFFFFFFFFFFF :: u64) + 1 = 0"
  by simp_all

lemma low_word: "(ucast ((i :: u64) mod 0x100000000) :: u32) = ucast i"
proof -
  have "i mod 0x100000000 = take_bit 32 i" by (simp add: take_bit_eq_mod)
  then show ?thesis
    by (simp only:) (rule bit_word_eqI, simp add: bit_simps)
qed

lemma high_word: "(i :: u64) div 0x100000000 = drop_bit 32 i"
  by (simp add: drop_bit_eq_div)

lemma block_index_words_at:
  "wf_context ctx \<Longrightarrow>
   block_index_words (at_block ctx i) =
     (ucast (i mod 0x100000000), spec_pack (take 4 (nonce ctx)) XOR ucast (i div 0x100000000))"
proof -
  assume "wf_context ctx"
  then have a: "state (keystream (at_block ctx i)) ! 10 = ucast i"
    and b: "state (keystream (at_block ctx i)) ! 11 =
              spec_pack (take 4 (nonce ctx)) XOR ucast (drop_bit 32 i)"
    by (simp_all add: at_block_def spec_per_block_state_def wf_context_def)
  show ?thesis
    unfolding block_index_words_def a b by (simp only: low_word high_word)
qed

lemma vector_nonce_word: "spec_pack (take 4 (nonce vector_context)) = 0"
  by code_simp

lemma constructed_vector_sets:
  "constructed vector_key vector_nonce [Set_next_block i] = Some (at_block vector_context i)"
  "constructed vector_key vector_nonce [Set_next_block i, Set_next_block j] =
     Some (at_block vector_context j)"
  "constructed vector_key vector_nonce [Set_next_block i, Set_next_block j, Set_next_block k] =
     Some (at_block vector_context k)"
  by (simp_all add: constructed_def vector_context_init set_next_block_at wf_vector_context)

lemma block_words_spec:
  "keystream_bytes (block_words ctx i) =
     spec_generate_block (state (keystream ctx)) (nonce ctx) i"
  by (simp add: block_words_def spec_generate_block_def spec_serialize_eq)

lemma at_block_spec_own:
  "keystream_bytes (stream (keystream (at_block ctx i))) =
     spec_generate_block (state (keystream (at_block ctx i))) (nonce (at_block ctx i)) i"
  by (simp add: at_block_def block_words_def spec_generate_block_def spec_serialize_eq)

lemma block_words_spec_own:
  "keystream_bytes (block_words ctx i) =
     spec_generate_block (state (keystream (at_block ctx i))) (nonce ctx) i"
  using at_block_spec_own [of ctx i] by (simp add: at_block_def)

lemma at_block_fields:
  "key (at_block ctx i) = key ctx" "nonce (at_block ctx i) = nonce ctx"
  "state (keystream (at_block ctx i)) = spec_per_block_state (state (keystream ctx)) (nonce ctx) i"
  by (simp_all add: at_block_def)

lemma wf_vector_seed_context: "wf_context vector_seed_context"
  by (simp add: wf_context_def vector_seed_context_def)

lemma vector_seed_last: "last_block_index (keystream vector_seed_context) = 0"
  by (simp add: vector_seed_context_def)

lemma vector_context_changed: "vector_context \<noteq> vector_seed_context"
  by code_simp

section \<open>The claims\<close>

text \<open>
  C1 (known-answer vectors).  For the key of 32 zero bytes and the nonce of 20 zero bytes,
  construction leaves a block 0 whose first four keystream bytes are 14 84 EC FD; for the
  same nonce and the key that is zero except for its last byte 01, they are EF 71 CB C9.
  These are the values \<^verbatim>\<open>test_vectors\<close> asserts.
\<close>

theorem known_answer_vectors:
  "map_option (\<lambda>c. take 4 (keystream_bytes (stream (keystream c))))
     (helix2_initialize_context vector_key vector_nonce) = Some [0x14, 0x84, 0xEC, 0xFD] \<and>
   map_option (\<lambda>c. take 4 (keystream_bytes (stream (keystream c))))
     (helix2_initialize_context vector_key2 vector_nonce) = Some [0xEF, 0x71, 0xCB, 0xC9] \<and>
   vector_key = replicate 32 0 \<and> vector_nonce = replicate 20 0 \<and>
   vector_key2 = replicate 31 0 @ [0x01]"
proof -
  have "vector_key2 = replicate 31 0 @ [0x01]"
    unfolding vector_key2_def by code_simp
  then show ?thesis
    by (simp only: vector_context_init vector_key2_block_0 option.map vector_bytes)
       (simp add: vector_key_def vector_nonce_def)
qed

text \<open>
  C2 (involution).  For every key and nonce of the required sizes, every offset and every
  input byte: \<^verbatim>\<open>helix2_byte\<close> on a context built from the key and nonce, followed by
  \<^verbatim>\<open>helix2_byte\<close> at the same offset on a second context built from the same key and
  nonce, gives the input byte back.  Both calls return, and each context may have served
  any sequence of calls before.
\<close>

theorem involution:
  assumes "32 \<le> length key_in" "20 \<le> length nonce_in"
  shows "byte_on key_in nonce_in cs1 offset byte \<bind> byte_on key_in nonce_in cs2 offset = Some byte"
  by (simp add: byte_on_eq [OF assms] xor.assoc)

text \<open>The involution at offset 70 for the all-zero key and nonce.\<close>

theorem involution_witness:
  "32 \<le> length vector_key \<and> 20 \<le> length vector_nonce \<and>
   byte_on vector_key vector_nonce [Byte 0 0x41, Next_block] 70 0x41 \<bind>
     byte_on vector_key vector_nonce [] 70 = Some 0x41"
  by (intro conjI vector_lengths involution)

text \<open>
  C3 (range/byte equivalence), amended.  For every constructed context, every buffer,
  every length \<open>sz\<close> within the buffer and every start offset with
  \<open>start_offset + sz \<le> 2\<^sup>6\<^sup>4\<close>, \<^verbatim>\<open>helix2_buffer\<close> returns and leaves the buffer
  byte for byte as \<open>sz\<close> sequential \<^verbatim>\<open>helix2_byte\<close> calls at the offsets
  \<open>start_offset\<close>, \<dots>, \<open>start_offset + sz - 1\<close> leave it, across any number of block
  boundaries.
\<close>

theorem range_byte_equivalence:
  assumes "32 \<le> length key_in" "20 \<le> length nonce_in"
    and "sz \<le> length buffer" "unat start_offset + sz \<le> 2 ^ 64"
  shows "buffer_on key_in nonce_in cs buffer sz start_offset =
           byte_calls_on key_in nonce_in cs buffer sz start_offset \<and>
         buffer_on key_in nonce_in cs buffer sz start_offset \<noteq> None"
proof -
  have "unat start_offset + length (take sz buffer) \<le> 2 ^ 64"
    using assms(3,4) by simp
  from xor_blocks_start [OF this] show ?thesis
    by (simp add: buffer_on_eq [OF assms(1-3)] byte_calls_on_eq [OF assms(1,2)])
qed

text \<open>
  Without the bound the two differ.  For the all-zero key and nonce, two zero bytes from
  the last offset \<^verbatim>\<open>0xFFFFFFFFFFFFFFFF\<close>: \<^verbatim>\<open>helix2_buffer\<close> increments its block
  counter to \<open>2\<^sup>5\<^sup>8\<close> for the second byte (first keystream byte C2), while the second byte
  call is at the offset \<open>start_offset + 1\<close>, which is 0 in \<^verbatim>\<open>uint64_t\<close>, in block 0
  (first keystream byte 14).
\<close>

theorem range_byte_equivalence_counterexample:
  "buffer_on vector_key vector_nonce [] [0, 0] 2 0xFFFFFFFFFFFFFFFF \<noteq>
   byte_calls_on vector_key vector_nonce [] [0, 0] 2 0xFFFFFFFFFFFFFFFF"
proof
  let ?blk = "\<lambda>j. keystream_bytes (block_words vector_context j)"
  have c: "constructed vector_key vector_nonce [] = Some vector_context"
    by (simp add: constructed_def vector_context_init)
  from helix2_buffer_at [OF coherent_vector_context, of 2 "[0, 0]" "0xFFFFFFFFFFFFFFFF"]
  have b: "buffer_on vector_key vector_nonce [] [0, 0] 2 0xFFFFFFFFFFFFFFFF =
      Some (xor_blocks ?blk 0x03FFFFFFFFFFFFFF 63 [0, 0])"
    by (auto simp add: buffer_on_def c last_offset)
  from byte_calls_at [OF coherent_vector_context, of "0xFFFFFFFFFFFFFFFF" "[0, 0]"]
  have s: "byte_calls_on vector_key vector_nonce [] [0, 0] 2 0xFFFFFFFFFFFFFFFF =
      Some (xor_offsets ?blk 0xFFFFFFFFFFFFFFFF [0, 0])"
    by (auto simp add: byte_calls_on_def c)
  assume "buffer_on vector_key vector_nonce [] [0, 0] 2 0xFFFFFFFFFFFFFFFF =
   byte_calls_on vector_key vector_nonce [] [0, 0] 2 0xFFFFFFFFFFFFFFFF"
  then have "xor_blocks ?blk 0x03FFFFFFFFFFFFFF 63 [0, 0] = xor_offsets ?blk 0xFFFFFFFFFFFFFFFF [0, 0]"
    by (simp only: b s option.inject)
  then have "?blk (0x03FFFFFFFFFFFFFF + of_nat (64 div 64)) ! (64 mod 64) =
             ?blk ((0xFFFFFFFFFFFFFFFF + 1) div 64) ! unat ((0xFFFFFFFFFFFFFFFF + 1 :: u64) mod 64)"
    by (simp only: xor_blocks.simps xor_offsets.simps list.inject) simp
  then have "?blk 0x0400000000000000 ! 0 = ?blk 0 ! 0"
    by (simp add: last_offset)
  then show False
    by (simp only: vector_block_low vector_block_high_byte) simp
qed

text \<open>Length 100 from offset 30, which crosses a block boundary, for the all-zero key and nonce.\<close>

theorem range_byte_equivalence_witness:
  "32 \<le> length vector_key \<and> 20 \<le> length vector_nonce \<and>
   100 \<le> length (replicate 100 (0 :: u8)) \<and> unat (30 :: u64) + 100 \<le> 2 ^ 64 \<and>
   buffer_on vector_key vector_nonce [] (replicate 100 0) 100 30 =
     byte_calls_on vector_key vector_nonce [] (replicate 100 0) 100 30 \<and>
   buffer_on vector_key vector_nonce [] (replicate 100 0) 100 30 \<noteq> None"
proof -
  have h3: "100 \<le> length (replicate 100 (0 :: u8))" by simp
  have h4: "unat (30 :: u64) + 100 \<le> 2 ^ 64" by simp
  from range_byte_equivalence [OF vector_lengths h3 h4, of "[]"] vector_lengths h3 h4
  show ?thesis by blast
qed

text \<open>
  C4 (the two generation paths), amended.  For every key and nonce of the required sizes,
  every buffer, every length within it and every start offset, each \<^verbatim>\<open>helix2_buffer\<close>
  returns the buffer XORed with the bytes of the consecutive blocks \<open>start_offset div 64\<close>,
  \<open>start_offset div 64 + 1\<close>, \<dots> from position \<open>start_offset mod 64\<close> on, as its own file
  generates these blocks for a fresh context: the path that checks the cached index, after
  any sequence of earlier calls, with \<open>keystream_block\<close>, and the path that regenerates
  unconditionally with \<open>keystream_block_u\<close>.  Caching or not makes no difference to the
  bytes; the two files differ in the block generator alone.
\<close>

theorem generation_paths_by_generator:
  assumes "32 \<le> length key_in" "20 \<le> length nonce_in" "sz \<le> length buffer"
  shows "buffer_on key_in nonce_in cs buffer sz start_offset =
           Some (xor_blocks (keystream_block key_in nonce_in) (start_offset div 64)
                   (unat (start_offset mod 64)) (take sz buffer) @ drop sz buffer) \<and>
         buffer_u key_in nonce_in buffer sz start_offset =
           Some (xor_blocks (keystream_block_u key_in nonce_in) (start_offset div 64)
                   (unat (start_offset mod 64)) (take sz buffer) @ drop sz buffer)"
  by (simp add: buffer_on_eq [OF assms] buffer_u_eq [OF assms])

text \<open>
  The two paths are not byte-identical.  The copy without the cache runs rows and diagonals
  in round 1 and columns and mirrored diagonals in round 2, as its header says, where
  \<^verbatim>\<open>src/helix2.c\<close> runs rows, columns and diagonals in both rounds.  For the all-zero
  key and nonce, one zero byte at offset 0 becomes 14 on the cached path and 81 on the
  other.
\<close>

theorem generation_paths_counterexample:
  "buffer_on vector_key vector_nonce [] [0] 1 0 \<noteq> buffer_u vector_key vector_nonce [0] 1 0"
proof -
  have "buffer_on vector_key vector_nonce [] [0] 1 0 = Some [0x14]"
    by (simp only: buffer_on_def constructed_def vector_context_init run_calls.simps
          Option.bind.simps vector_buffer option.map snd_conv)
  then show ?thesis
    by (simp only: vector_buffer_u) simp
qed

text \<open>Both paths on 100 zero bytes from offset 30, for the all-zero key and nonce.\<close>

theorem generation_paths_by_generator_witness:
  "32 \<le> length vector_key \<and> 20 \<le> length vector_nonce \<and>
   100 \<le> length (replicate 100 (0 :: u8)) \<and>
   buffer_on vector_key vector_nonce [] (replicate 100 0) 100 30 =
     Some (xor_blocks (keystream_block vector_key vector_nonce) (30 div 64) (unat (30 mod 64 :: u64))
             (take 100 (replicate 100 0)) @ drop 100 (replicate 100 0)) \<and>
   buffer_u vector_key vector_nonce (replicate 100 0) 100 30 =
     Some (xor_blocks (keystream_block_u vector_key vector_nonce) (30 div 64) (unat (30 mod 64 :: u64))
             (take 100 (replicate 100 0)) @ drop 100 (replicate 100 0))"
proof -
  have h3: "100 \<le> length (replicate 100 (0 :: u8))" by simp
  from generation_paths_by_generator [OF vector_lengths h3, of "[]" 30] vector_lengths h3
  show ?thesis by blast
qed

text \<open>
  C5 (random-access independence and determinism).  For every key and nonce of the required
  sizes, every offset and every input byte, \<^verbatim>\<open>helix2_byte\<close> at the offset returns, and
  its output is the same on two contexts built from the key and nonce whatever calls
  \<open>cs1\<close> and \<open>cs2\<close> each has served, the same as on a fresh context, and equal to the
  input XOR byte \<open>offset mod 64\<close> of block \<open>offset div 64\<close> as a fresh context generates it,
  a function of the key, the nonce and the offset.
\<close>

theorem random_access_independence:
  assumes "32 \<le> length key_in" "20 \<le> length nonce_in"
  shows "byte_on key_in nonce_in cs1 offset byte = byte_on key_in nonce_in cs2 offset byte \<and>
         byte_on key_in nonce_in cs1 offset byte = byte_on key_in nonce_in [] offset byte \<and>
         byte_on key_in nonce_in cs1 offset byte =
           Some (byte XOR keystream_block key_in nonce_in (offset div 64) ! unat (offset mod 64))"
  by (simp add: byte_on_eq [OF assms])

text \<open>Offset 130 after a buffer call, after a byte call and on a fresh context.\<close>

theorem random_access_independence_witness:
  "32 \<le> length vector_key \<and> 20 \<le> length vector_nonce \<and>
   byte_on vector_key vector_nonce [Buffer (replicate 100 0) 30] 130 0x07 =
     byte_on vector_key vector_nonce [Byte 129 0x07] 130 0x07 \<and>
   byte_on vector_key vector_nonce [Buffer (replicate 100 0) 30] 130 0x07 =
     byte_on vector_key vector_nonce [] 130 0x07 \<and>
   byte_on vector_key vector_nonce [Buffer (replicate 100 0) 30] 130 0x07 =
     Some (0x07 XOR keystream_block vector_key vector_nonce (130 div 64) ! unat (130 mod 64 :: u64))"
  using random_access_independence
          [OF vector_lengths, of "[Buffer (replicate 100 0) 30]" 130 "0x07" "[Byte 129 0x07]"]
        vector_lengths
  by blast

text \<open>
  C6 (block-index words).  Whenever \<^verbatim>\<open>helix2_buffer_set_next_block\<close> generates block
  \<open>i\<close> in a context with arrays of the declared sizes, state word 10 is \<open>i mod 2\<^sup>3\<^sup>2\<close>, the low
  32 bits of \<open>i\<close>, and state word 11 is the first four nonce bytes, packed low-order byte
  first, XOR \<open>i div 2\<^sup>3\<^sup>2\<close>, the high 32 bits.  For the all-zero key and nonce, as \<^verbatim>\<open>test_64bit_counter\<close> sets the
  blocks in turn: block 0 gives the words \<open>(0, 0)\<close>, block \<^verbatim>\<open>0xFFFFFFFF\<close> gives
  \<^verbatim>\<open>0xFFFFFFFF\<close> and 0, and block \<^verbatim>\<open>0x100000000\<close> gives 0 and 1.
\<close>

theorem block_index_words_of_block:
  "(\<forall>ctx i. wf_context ctx \<longrightarrow>
      map_option block_index_words (helix2_buffer_set_next_block ctx i) =
        Some (ucast (i mod 0x100000000),
              spec_pack (take 4 (nonce ctx)) XOR ucast (i div 0x100000000))) \<and>
   map_option block_index_words (constructed vector_key vector_nonce [Set_next_block 0]) =
     Some (0x00000000, 0) \<and>
   map_option block_index_words
     (constructed vector_key vector_nonce [Set_next_block 0, Set_next_block 0xFFFFFFFF]) =
     Some (0xFFFFFFFF, 0) \<and>
   map_option block_index_words
     (constructed vector_key vector_nonce
        [Set_next_block 0, Set_next_block 0xFFFFFFFF, Set_next_block 0x100000000]) =
     Some (0x00000000, 1)"
proof -
  have g: "map_option block_index_words (helix2_buffer_set_next_block ctx i) =
        Some (ucast (i mod 0x100000000),
              spec_pack (take 4 (nonce ctx)) XOR ucast (i div 0x100000000))"
    if "wf_context ctx" for ctx i
    using that by (simp add: set_next_block_at block_index_words_at)
  have v: "block_index_words (at_block vector_context i) =
             (ucast (i mod 0x100000000), ucast (i div 0x100000000))" for i
    by (simp add: block_index_words_at [OF wf_vector_context] vector_nonce_word)
  show ?thesis
    by (simp add: g constructed_vector_sets v)
qed

text \<open>Block \<^verbatim>\<open>0x100000000\<close> generated in the context of the all-zero key and nonce.\<close>

theorem block_index_words_of_block_witness:
  "wf_context vector_context \<and>
   map_option block_index_words (helix2_buffer_set_next_block vector_context 0x100000000) =
     Some (ucast ((0x100000000 :: u64) mod 0x100000000),
           spec_pack (take 4 (nonce vector_context)) XOR ucast ((0x100000000 :: u64) div 0x100000000))"
  by (rule conjI [OF wf_vector_context
        block_index_words_of_block [THEN conjunct1, rule_format, OF wf_vector_context]])

text \<open>
  C7 (block-generation algorithm).  \<^verbatim>\<open>_helix2_shuffle\<close> on four distinct positions of
  the array is \<open>mix\<close> of the specification on the four words there, with its eight
  sub-steps and rotation amounts.  \<^verbatim>\<open>_helix2_initialize_keystream\<close> on a context with
  arrays of the declared sizes returns; the bytes of the stream it leaves are
  \<open>spec_generate_block\<close> of the state, the nonce and the current block index: the per-block
  state with words 10 and 11 set from the index, round 1 over rows, columns and diagonals,
  the word-wise addition of the per-block state, round 2 over the same groups in the same
  order, the addition again, and the words serialised low-order byte first.  It stores the
  per-block state, sets the last block index to the current one and leaves key and nonce.
\<close>

theorem block_generation_refines_spec:
  "(\<forall>s a b c d. a < length s \<and> b < length s \<and> c < length s \<and> d < length s \<and>
       distinct [a, b, c, d] \<longrightarrow>
       helix2_shuffle s a b c d = Some (spec_mix_group s (a, b, c, d))) \<and>
   (\<forall>ctx. wf_context ctx \<longrightarrow>
      (\<exists>ctx'. helix2_initialize_keystream ctx = Some ctx' \<and>
         keystream_bytes (stream (keystream ctx')) =
           spec_generate_block (state (keystream ctx)) (nonce ctx)
             (current_block_index (keystream ctx)) \<and>
         state (keystream ctx') =
           spec_per_block_state (state (keystream ctx)) (nonce ctx)
             (current_block_index (keystream ctx)) \<and>
         last_block_index (keystream ctx') = current_block_index (keystream ctx) \<and>
         current_block_index (keystream ctx') = current_block_index (keystream ctx) \<and>
         nonce ctx' = nonce ctx \<and> key ctx' = key ctx))"
  by (simp add: helix2_shuffle_spec initialize_keystream_spec spec_generate_block_def
        spec_serialize_eq)

text \<open>A shuffle of a four-word array, and the block of the context of the all-zero key and nonce.\<close>

theorem block_generation_refines_spec_witness:
  "0 < length [1, 2, 3, 4 :: u32] \<and> 1 < length [1, 2, 3, 4 :: u32] \<and>
   2 < length [1, 2, 3, 4 :: u32] \<and> 3 < length [1, 2, 3, 4 :: u32] \<and>
   distinct [0, 1, 2, 3 :: nat] \<and>
   helix2_shuffle [1, 2, 3, 4] 0 1 2 3 = Some (spec_mix_group [1, 2, 3, 4] (0, 1, 2, 3)) \<and>
   wf_context vector_context \<and>
   (\<exists>ctx'. helix2_initialize_keystream vector_context = Some ctx' \<and>
         keystream_bytes (stream (keystream ctx')) =
           spec_generate_block (state (keystream vector_context)) (nonce vector_context)
             (current_block_index (keystream vector_context)) \<and>
         state (keystream ctx') =
           spec_per_block_state (state (keystream vector_context)) (nonce vector_context)
             (current_block_index (keystream vector_context)) \<and>
         last_block_index (keystream ctx') = current_block_index (keystream vector_context) \<and>
         current_block_index (keystream ctx') = current_block_index (keystream vector_context) \<and>
         nonce ctx' = nonce vector_context \<and> key ctx' = key vector_context)"
proof -
  have h: "0 < length [1, 2, 3, 4 :: u32] \<and> 1 < length [1, 2, 3, 4 :: u32] \<and>
     2 < length [1, 2, 3, 4 :: u32] \<and> 3 < length [1, 2, 3, 4 :: u32] \<and>
     distinct [0, 1, 2, 3 :: nat]"
    by simp
  note s = block_generation_refines_spec [THEN conjunct1, rule_format, OF h]
  note g = block_generation_refines_spec [THEN conjunct2, rule_format, OF wf_vector_context]
  from h s wf_vector_context g show ?thesis by blast
qed

text \<open>
  C8 (caching contract of \<^verbatim>\<open>helix2_buffer_set_next_block\<close>), amended.  The function has
  no test of the index.  For every context with arrays of the declared sizes and every
  index \<open>i\<close> it returns, with the current and the last generated index set to \<open>i\<close>, the
  stream bytes those of block \<open>i\<close> as the specification's \<open>generate_block\<close> gives them for
  the context's state and nonce, the per-block state stored, key and nonce as they were.
  On a constructed context the cached stream already is the block of the last generated
  index, so the call with that index returns the context unchanged; the test of the index
  against the last generated one is made by the callers \<^verbatim>\<open>helix2_byte\<close> and
  \<^verbatim>\<open>helix2_buffer\<close>.
\<close>

theorem set_block_caching_contract:
  "(\<forall>ctx i. wf_context ctx \<longrightarrow>
      (\<exists>ctx'. helix2_buffer_set_next_block ctx i = Some ctx' \<and>
         last_block_index (keystream ctx') = i \<and>
         current_block_index (keystream ctx') = i \<and>
         keystream_bytes (stream (keystream ctx')) =
           spec_generate_block (state (keystream ctx)) (nonce ctx) i \<and>
         state (keystream ctx') = spec_per_block_state (state (keystream ctx)) (nonce ctx) i \<and>
         key ctx' = key ctx \<and> nonce ctx' = nonce ctx)) \<and>
   (\<forall>key_in nonce_in cs. 32 \<le> length key_in \<and> 20 \<le> length nonce_in \<longrightarrow>
      (\<exists>ctx. constructed key_in nonce_in cs = Some ctx \<and> wf_context ctx \<and>
         keystream_bytes (stream (keystream ctx)) =
           spec_generate_block (state (keystream ctx)) (nonce ctx)
             (last_block_index (keystream ctx)) \<and>
         helix2_buffer_set_next_block ctx (last_block_index (keystream ctx)) = Some ctx \<and>
         (\<forall>i. \<exists>ctx'. helix2_buffer_set_next_block ctx i = Some ctx' \<and>
                last_block_index (keystream ctx') = i \<and>
                current_block_index (keystream ctx') = i \<and>
                keystream_bytes (stream (keystream ctx')) = keystream_block key_in nonce_in i \<and>
                key ctx' = key ctx \<and> nonce ctx' = nonce ctx)))"
proof -
  have g: "\<exists>ctx'. helix2_buffer_set_next_block ctx i = Some ctx' \<and>
         last_block_index (keystream ctx') = i \<and>
         current_block_index (keystream ctx') = i \<and>
         keystream_bytes (stream (keystream ctx')) =
           spec_generate_block (state (keystream ctx)) (nonce ctx) i \<and>
         state (keystream ctx') = spec_per_block_state (state (keystream ctx)) (nonce ctx) i \<and>
         key ctx' = key ctx \<and> nonce ctx' = nonce ctx"
    if "wf_context ctx" for ctx i
    by (rule exI [of _ "at_block ctx i"])
       (simp add: set_next_block_at [OF that] block_words_spec at_block_fields)
  have k: "\<exists>ctx. constructed key_in nonce_in cs = Some ctx \<and> wf_context ctx \<and>
         keystream_bytes (stream (keystream ctx)) =
           spec_generate_block (state (keystream ctx)) (nonce ctx)
             (last_block_index (keystream ctx)) \<and>
         helix2_buffer_set_next_block ctx (last_block_index (keystream ctx)) = Some ctx \<and>
         (\<forall>i. \<exists>ctx'. helix2_buffer_set_next_block ctx i = Some ctx' \<and>
                last_block_index (keystream ctx') = i \<and>
                current_block_index (keystream ctx') = i \<and>
                keystream_bytes (stream (keystream ctx')) = keystream_block key_in nonce_in i \<and>
                key ctx' = key ctx \<and> nonce ctx' = nonce ctx)"
    if "32 \<le> length key_in" "20 \<le> length nonce_in" for key_in nonce_in cs
  proof -
    from constructed_at [OF that, of cs] obtain c i where
      c: "wf_context c" "constructed key_in nonce_in cs = Some (at_block c i)"
         "\<And>j. keystream_block key_in nonce_in j = keystream_bytes (block_words c j)"
      by blast
    have wf: "wf_context (at_block c i)" using c(1) by (rule wf_at_block)
    show ?thesis
      by (rule exI [of _ "at_block c i"])
         (simp add: c(2,3) wf block_words_spec_own set_next_block_at [OF wf] at_block_fields(1,2))
  qed
  from g k show ?thesis by blast
qed

text \<open>
  The call with the last generated index is not a no-op on every context.  The context
  that \<^verbatim>\<open>helix2_initialize_context\<close> passes to \<^verbatim>\<open>helix2_buffer_set_next_block\<close> for the
  all-zero key and nonce has last generated index 0 and a zero stream; the call with index
  0 fills the stream with block 0.  Construction relies on this.
\<close>

theorem set_block_caching_contract_counterexample:
  "helix2_buffer_set_next_block vector_seed_context
     (last_block_index (keystream vector_seed_context)) \<noteq> Some vector_seed_context"
  by (simp only: vector_seed_last vector_seed_generate option.inject vector_context_changed
        not_False_eq_True)

text \<open>
  The call on the context before block 0 is generated, and on the context of the all-zero
  key and nonce after a byte call in block 1.
\<close>

theorem set_block_caching_contract_witness:
  "wf_context vector_seed_context \<and>
   (\<exists>ctx'. helix2_buffer_set_next_block vector_seed_context 0 = Some ctx' \<and>
         last_block_index (keystream ctx') = 0 \<and>
         current_block_index (keystream ctx') = 0 \<and>
         keystream_bytes (stream (keystream ctx')) =
           spec_generate_block (state (keystream vector_seed_context)) (nonce vector_seed_context) 0 \<and>
         state (keystream ctx') =
           spec_per_block_state (state (keystream vector_seed_context)) (nonce vector_seed_context) 0 \<and>
         key ctx' = key vector_seed_context \<and> nonce ctx' = nonce vector_seed_context) \<and>
   32 \<le> length vector_key \<and> 20 \<le> length vector_nonce \<and>
   (\<exists>ctx. constructed vector_key vector_nonce [Byte 100 0] = Some ctx \<and> wf_context ctx \<and>
         keystream_bytes (stream (keystream ctx)) =
           spec_generate_block (state (keystream ctx)) (nonce ctx)
             (last_block_index (keystream ctx)) \<and>
         helix2_buffer_set_next_block ctx (last_block_index (keystream ctx)) = Some ctx \<and>
         (\<forall>i. \<exists>ctx'. helix2_buffer_set_next_block ctx i = Some ctx' \<and>
                last_block_index (keystream ctx') = i \<and>
                current_block_index (keystream ctx') = i \<and>
                keystream_bytes (stream (keystream ctx')) = keystream_block vector_key vector_nonce i \<and>
                key ctx' = key ctx \<and> nonce ctx' = nonce ctx))"
proof -
  have l: "32 \<le> length vector_key \<and> 20 \<le> length vector_nonce"
    using vector_lengths by simp
  note g = set_block_caching_contract [THEN conjunct1, rule_format, OF wf_vector_seed_context, of 0]
  note k = set_block_caching_contract [THEN conjunct2, THEN spec, THEN spec, THEN spec, THEN mp,
             OF l, of "[Byte 100 0]"]
  from wf_vector_seed_context g l k show ?thesis by blast
qed

text \<open>
  C9 (cache coherence).  After \<^verbatim>\<open>helix2_initialize_context\<close> and after every sequence
  \<open>cs\<close> of byte, buffer, set-block and next-block calls on its result, each call returns,
  the last generated block index equals the current block index, and the 64 cached stream
  bytes are the block that the specification's \<open>generate_block\<close> gives for the context's
  state, its nonce and the current block index.  The nonce and the key in the context are
  the first 20 and 32 bytes given at construction, the state is the per-block state of the
  current index, and the cached bytes are also those a fresh context generates for that
  index.
\<close>

theorem cache_coherence_invariant:
  assumes "32 \<le> length key_in" "20 \<le> length nonce_in"
  shows "\<exists>ctx. constructed key_in nonce_in cs = Some ctx \<and>
           last_block_index (keystream ctx) = current_block_index (keystream ctx) \<and>
           keystream_bytes (stream (keystream ctx)) =
             spec_generate_block (state (keystream ctx)) (nonce ctx)
               (current_block_index (keystream ctx)) \<and>
           state (keystream ctx) =
             spec_per_block_state (state (keystream ctx)) (nonce ctx)
               (current_block_index (keystream ctx)) \<and>
           nonce ctx = take 20 nonce_in \<and> key ctx = take 32 key_in \<and>
           keystream_bytes (stream (keystream ctx)) =
             keystream_block key_in nonce_in (current_block_index (keystream ctx))"
proof -
  from constructed_at [OF assms, of cs] obtain c i where
    c: "wf_context c" "key c = take 32 key_in" "nonce c = take 20 nonce_in"
       "constructed key_in nonce_in cs = Some (at_block c i)"
       "\<And>j. keystream_block key_in nonce_in j = keystream_bytes (block_words c j)"
    by blast
  have sp: "keystream_bytes (stream (keystream (at_block c i))) =
           spec_generate_block (state (keystream (at_block c i))) (nonce (at_block c i))
             (current_block_index (keystream (at_block c i)))"
    using at_block_spec_own [of c i] by simp
  have st: "state (keystream (at_block c i)) =
             spec_per_block_state (state (keystream (at_block c i))) (nonce (at_block c i))
               (current_block_index (keystream (at_block c i)))"
    by (simp add: at_block_fields)
  show ?thesis
    by (rule exI [of _ "at_block c i"])
       (simp only: c(4) sp [symmetric] st [symmetric] simp_thms,
        simp add: c(2,3,5) at_block_fields(1,2))
qed

text \<open>The invariant after a byte call, a buffer call across a block boundary and a next-block call.\<close>

theorem cache_coherence_invariant_witness:
  "32 \<le> length vector_key \<and> 20 \<le> length vector_nonce \<and>
   (\<exists>ctx. constructed vector_key vector_nonce [Byte 100 0, Buffer [1, 2, 3] 63, Next_block] = Some ctx \<and>
           last_block_index (keystream ctx) = current_block_index (keystream ctx) \<and>
           keystream_bytes (stream (keystream ctx)) =
             spec_generate_block (state (keystream ctx)) (nonce ctx)
               (current_block_index (keystream ctx)) \<and>
           state (keystream ctx) =
             spec_per_block_state (state (keystream ctx)) (nonce ctx)
               (current_block_index (keystream ctx)) \<and>
           nonce ctx = take 20 vector_nonce \<and> key ctx = take 32 vector_key \<and>
           keystream_bytes (stream (keystream ctx)) =
             keystream_block vector_key vector_nonce (current_block_index (keystream ctx)))"
  by (intro conjI vector_lengths cache_coherence_invariant)

text \<open>
  C10 (totality and in-bounds access).  \<^verbatim>\<open>_rotl32\<close> is defined, and is the rotation,
  for every word and each amount in \<open>{7, 9, 11, 13, 16, 18, 21, 22}\<close>, the amounts
  \<^verbatim>\<open>_helix2_shuffle\<close> passes; for 0 and 32 it is not.  A shuffle on four distinct
  positions inside the array does not fail.  The intra-block offset of \<^verbatim>\<open>helix2_byte\<close> is
  \<open>offset mod 64\<close>, below 64, the number of bytes of the cached stream.  Construction from
  a key of 32 and a nonce of 20 bytes and any sequence of calls after it return, and on the
  resulting context no byte call, no buffer call with a length within the buffer, no
  set-block call and no next-block call fails.
\<close>

theorem totality_and_bounds:
  "(\<forall>x. \<forall>n \<in> {7, 9, 11, 13, 16, 18, 21, 22}. rotl32 x n = Some (word_rotl (nat n) x)) \<and>
   (\<forall>x. rotl32 x 0 = None \<and> rotl32 x 32 = None) \<and>
   (\<forall>s a b c d. a < length s \<and> b < length s \<and> c < length s \<and> d < length s \<and>
       distinct [a, b, c, d] \<longrightarrow> helix2_shuffle s a b c d \<noteq> None) \<and>
   (\<forall>offset :: u64. unat (ucast (offset mod 64) :: u8) = unat (offset mod 64) \<and>
       unat (ucast (offset mod 64) :: u8) < 64) \<and>
   (\<forall>key_in nonce_in cs. 32 \<le> length key_in \<and> 20 \<le> length nonce_in \<longrightarrow>
      (\<exists>ctx. constructed key_in nonce_in cs = Some ctx \<and>
         length (keystream_bytes (stream (keystream ctx))) = 64 \<and>
         (\<forall>offset byte. helix2_byte ctx offset byte \<noteq> None) \<and>
         (\<forall>buffer sz start_offset. sz \<le> length buffer \<longrightarrow>
            helix2_buffer ctx buffer sz start_offset \<noteq> None) \<and>
         (\<forall>i. helix2_buffer_set_next_block ctx i \<noteq> None) \<and>
         helix2_buffer_next_block ctx \<noteq> None))"
proof -
  have r: "\<forall>x. \<forall>n \<in> {7, 9, 11, 13, 16, 18, 21, 22}. rotl32 x n = Some (word_rotl (nat n) x)"
    by (simp add: rotl32_spec spec_rotl_def)
  have z: "\<forall>x. rotl32 x 0 = None \<and> rotl32 x 32 = None"
    by (simp add: rotl32_def)
  have s: "\<forall>s a b c d. a < length s \<and> b < length s \<and> c < length s \<and> d < length s \<and>
       distinct [a, b, c, d] \<longrightarrow> helix2_shuffle s a b c d \<noteq> None"
    by (simp add: helix2_shuffle_spec)
  have o: "\<forall>offset :: u64. unat (ucast (offset mod 64) :: u8) = unat (offset mod 64) \<and>
       unat (ucast (offset mod 64) :: u8) < 64"
    by (simp add: unat_block_offset unat_mod64)
  have p: "\<exists>ctx. constructed key_in nonce_in cs = Some ctx \<and>
         length (keystream_bytes (stream (keystream ctx))) = 64 \<and>
         (\<forall>offset byte. helix2_byte ctx offset byte \<noteq> None) \<and>
         (\<forall>buffer sz start_offset. sz \<le> length buffer \<longrightarrow>
            helix2_buffer ctx buffer sz start_offset \<noteq> None) \<and>
         (\<forall>i. helix2_buffer_set_next_block ctx i \<noteq> None) \<and>
         helix2_buffer_next_block ctx \<noteq> None"
    if "32 \<le> length key_in" "20 \<le> length nonce_in" for key_in nonce_in cs
  proof -
    from constructed_at [OF that, of cs] obtain c i where
      c: "wf_context c" "constructed key_in nonce_in cs = Some (at_block c i)"
      by blast
    have wf: "wf_context (at_block c i)" using c(1) by (rule wf_at_block)
    have co: "coherent (at_block c i)" using c(1) by (rule coherent_at_block)
    have b: "helix2_buffer (at_block c i) buffer sz start_offset \<noteq> None"
      if "sz \<le> length buffer" for buffer sz start_offset
      using helix2_buffer_at [OF co that, of start_offset] by auto
    show ?thesis
      by (rule exI [of _ "at_block c i"])
         (simp add: c(2) helix2_byte_at [OF co] b set_next_block_at [OF wf]
            helix2_buffer_next_block_def length_block_words [OF c(1)])
  qed
  from r z s o p show ?thesis by blast
qed

text \<open>Rotation by 9, a shuffle of a four-word array, and the calls on the all-zero key and nonce.\<close>

theorem totality_and_bounds_witness:
  "(9 :: int) \<in> {7, 9, 11, 13, 16, 18, 21, 22} \<and>
   rotl32 5 9 = Some (word_rotl (nat 9) 5) \<and>
   0 < length [1, 2, 3, 4 :: u32] \<and> 1 < length [1, 2, 3, 4 :: u32] \<and>
   2 < length [1, 2, 3, 4 :: u32] \<and> 3 < length [1, 2, 3, 4 :: u32] \<and>
   distinct [0, 1, 2, 3 :: nat] \<and>
   helix2_shuffle [1, 2, 3, 4] 0 1 2 3 \<noteq> None \<and>
   32 \<le> length vector_key \<and> 20 \<le> length vector_nonce \<and>
   (\<exists>ctx. constructed vector_key vector_nonce [Byte 100 0] = Some ctx \<and>
         length (keystream_bytes (stream (keystream ctx))) = 64 \<and>
         (\<forall>offset byte. helix2_byte ctx offset byte \<noteq> None) \<and>
         (\<forall>buffer sz start_offset. sz \<le> length buffer \<longrightarrow>
            helix2_buffer ctx buffer sz start_offset \<noteq> None) \<and>
         (\<forall>i. helix2_buffer_set_next_block ctx i \<noteq> None) \<and>
         helix2_buffer_next_block ctx \<noteq> None)"
proof -
  have m: "(9 :: int) \<in> {7, 9, 11, 13, 16, 18, 21, 22}" by simp
  have h: "0 < length [1, 2, 3, 4 :: u32] \<and> 1 < length [1, 2, 3, 4 :: u32] \<and>
     2 < length [1, 2, 3, 4 :: u32] \<and> 3 < length [1, 2, 3, 4 :: u32] \<and>
     distinct [0, 1, 2, 3 :: nat]"
    by simp
  have l: "32 \<le> length vector_key \<and> 20 \<le> length vector_nonce"
    using vector_lengths by simp
  note r = totality_and_bounds [THEN conjunct1, rule_format, OF m]
  note s = totality_and_bounds [THEN conjunct2, THEN conjunct2, THEN conjunct1, rule_format, OF h]
  note p = totality_and_bounds [THEN conjunct2, THEN conjunct2, THEN conjunct2, THEN conjunct2,
             THEN spec, THEN spec, THEN spec, THEN mp, OF l]
  from m r h s l p show ?thesis by blast
qed

end
